theory Spec2Isabelle
  imports Main "HOL-Library.Word"
begin

unbundle bit_operations_syntax

section \<open>Data model\<close>

text \<open>
  A big integer is an array of 64-bit elements, least significant element first
  (\<open>src/arch/loong64/core/loong64_bigint.c\<close> works on \<open>uint64_t\<close> elements).
  Memory is word addressed: an address counts 8-byte elements, so that the assembler's
  byte offsets 0, 8 and 16 are the element offsets 0, 1 and 2. Every access of the
  kernel is an aligned \<open>ld.d\<close>/\<open>st.d\<close> of one element. Addresses are natural numbers:
  the layout of memory and the width of a pointer are not modelled.
\<close>

type_synonym uint64_t = "64 word"
type_synonym addr = nat
type_synonym memory = "addr \<Rightarrow> uint64_t"

text \<open>The integer denoted by a sequence of elements: the sum of \<open>word[i] * 2^(64 i)\<close>.\<close>

fun bigint_value :: "uint64_t list \<Rightarrow> nat" where
  "bigint_value [] = 0"
| "bigint_value (w # ws) = unat w + 2 ^ 64 * bigint_value ws"

text \<open>The \<open>n\<close> elements of the big integer whose element 0 is at address \<open>p\<close>.\<close>

definition load_bigint :: "memory \<Rightarrow> addr \<Rightarrow> nat \<Rightarrow> uint64_t list" where
  "load_bigint mem p n = map (\<lambda>k. mem (p + k)) [0..<n]"

text \<open>Addition of two \<open>unsigned int\<close> values (32 bits on loong64): it wraps.\<close>

definition uint_add :: "nat \<Rightarrow> nat \<Rightarrow> nat" where
  "uint_add x y = (x + y) mod 2 ^ 32"

section \<open>The LoongArch instructions of the kernel\<close>

text \<open>
  \<open>mul.d\<close> is the low and \<open>mulh.du\<close> the high 64 bits of the unsigned 128-bit product;
  \<open>add.d\<close> wraps; \<open>sltu\<close> is 1 when its first operand is below its second, unsigned,
  and 0 otherwise; \<open>or\<close> is bitwise.
\<close>

definition mul_d :: "uint64_t \<Rightarrow> uint64_t \<Rightarrow> uint64_t" where
  "mul_d rj rk = rj * rk"

definition mulh_du :: "uint64_t \<Rightarrow> uint64_t \<Rightarrow> uint64_t" where
  "mulh_du rj rk = of_nat ((unat rj * unat rk) div 2 ^ 64)"

definition add_d :: "uint64_t \<Rightarrow> uint64_t \<Rightarrow> uint64_t" where
  "add_d rj rk = rj + rk"

definition sltu :: "uint64_t \<Rightarrow> uint64_t \<Rightarrow> uint64_t" where
  "sltu rj rk = (if rj < rk then 1 else 0)"

definition or_d :: "uint64_t \<Rightarrow> uint64_t \<Rightarrow> uint64_t" where
  "or_d rj rk = rj OR rk"

section \<open>The multiply kernel\<close>

text \<open>
  The straight-line head of the assembler block, on registers: the two multiplies, the
  two loaded result elements \<open>mem0\<close> (offset 0) and \<open>mem8\<close> (offset 8), the two-element
  addition and its carry. It yields the two elements to store and the carry in \<open>$t0\<close>.
\<close>

definition multiply_add_pair ::
  "uint64_t \<Rightarrow> uint64_t \<Rightarrow> uint64_t \<Rightarrow> uint64_t \<Rightarrow> uint64_t \<times> uint64_t \<times> uint64_t" where
  "multiply_add_pair multiplicand_element multiplier_element mem0 mem8 =
    (let discard_low = mul_d multiplicand_element multiplier_element;
         discard_high = mulh_du multiplicand_element multiplier_element;
         discard_temp_low = mem0;
         discard_temp_high = mem8;
         discard_temp_low = add_d discard_temp_low discard_low;
         t0 = sltu discard_temp_low discard_low;
         discard_temp_high = add_d discard_temp_high discard_high;
         t1 = sltu discard_temp_high discard_high;
         discard_temp_high = add_d discard_temp_high t0;
         t0 = sltu discard_temp_high t0;
         t0 = or_d t0 t1
     in (discard_temp_low, discard_temp_high, t0))"

text \<open>
  The carry loop at label \<open>1\<close>: load, add the carry, store, advance, repeat while the
  carry is set. The code checks no bound. The model is given the end \<open>limit\<close> of the
  result big integer and answers \<open>None\<close> as soon as the loop would touch an element at
  or beyond it.
\<close>

function carry_loop :: "uint64_t \<Rightarrow> addr \<Rightarrow> addr \<Rightarrow> memory \<Rightarrow> memory option" where
  "carry_loop t0 result_elements limit mem =
    (if result_elements < limit then
       let discard_temp_low = add_d (mem result_elements) t0;
           t0' = sltu discard_temp_low t0;
           mem' = mem(result_elements := discard_temp_low)
       in if t0' \<noteq> 0 then carry_loop t0' (result_elements + 1) limit mem'
          else Some mem'
     else None)"
  by pat_completeness auto
termination
  by (relation "measure (\<lambda>(t0, result_elements, limit, mem). limit - result_elements)") auto

text \<open>
  The whole assembler block for one pair of elements: both loads, the head, both
  stores, the pointer advanced by two elements, and the carry loop when \<open>$t0\<close> is set.
  \<open>None\<close> when one of the two elements at \<open>result_elements\<close> lies at or beyond
  \<open>limit\<close>, or when the carry loop leaves the result.
\<close>

definition multiply_step ::
  "uint64_t \<Rightarrow> uint64_t \<Rightarrow> addr \<Rightarrow> addr \<Rightarrow> memory \<Rightarrow> memory option" where
  "multiply_step multiplicand_element multiplier_element result_elements limit mem =
    (if result_elements + 1 < limit then
       case multiply_add_pair multiplicand_element multiplier_element
              (mem result_elements) (mem (result_elements + 1)) of
         (discard_temp_low, discard_temp_high, t0) \<Rightarrow>
           let mem' = mem(result_elements := discard_temp_low,
                          result_elements + 1 := discard_temp_high)
           in if t0 = 0 then Some mem'
              else carry_loop t0 (result_elements + 2) limit mem'
     else None)"

text \<open>
  Modelled from the spec: \<open>memset\<close> and the \<open>bigint_t\<close> type macro are not among the
  sources. "The result buffer is zeroed first": \<open>sizeof ( *result )\<close> is \<open>result_size\<close>
  elements, all set to zero.
\<close>

definition memset_zero :: "addr \<Rightarrow> nat \<Rightarrow> memory \<Rightarrow> memory" where
  "memset_zero result result_size mem =
    (\<lambda>q. if result \<le> q \<and> q < result + result_size then 0 else mem q)"

text \<open>
  The loop over \<open>j\<close>. The multiplier element is read from memory at every iteration,
  and the result element index \<open>i + j\<close> is an \<open>unsigned int\<close> sum. The counter stays
  below \<open>multiplier_size\<close>, so \<open>j++\<close> does not wrap.
\<close>

function multiplier_loop ::
  "uint64_t \<Rightarrow> addr \<Rightarrow> nat \<Rightarrow> addr \<Rightarrow> nat \<Rightarrow> nat \<Rightarrow> nat \<Rightarrow> memory \<Rightarrow> memory option" where
  "multiplier_loop multiplicand_element multiplier0 multiplier_size result0 result_size i j mem =
    (if j < multiplier_size then
       let multiplier_element = mem (multiplier0 + j);
           result_elements = result0 + uint_add i j
       in case multiply_step multiplicand_element multiplier_element result_elements
                 (result0 + result_size) mem of
            None \<Rightarrow> None
          | Some mem' \<Rightarrow>
              multiplier_loop multiplicand_element multiplier0 multiplier_size
                result0 result_size i (j + 1) mem'
     else Some mem)"
  by pat_completeness auto
termination
  by (relation "measure (\<lambda>(e, m0, multiplier_size, r0, rs, i, j, mem). multiplier_size - j)")
    auto

text \<open>The loop over \<open>i\<close>. The multiplicand element is read from memory at every iteration.\<close>

function multiplicand_loop ::
  "addr \<Rightarrow> nat \<Rightarrow> addr \<Rightarrow> nat \<Rightarrow> addr \<Rightarrow> nat \<Rightarrow> nat \<Rightarrow> memory \<Rightarrow> memory option" where
  "multiplicand_loop multiplicand0 multiplicand_size multiplier0 multiplier_size
      result0 result_size i mem =
    (if i < multiplicand_size then
       let multiplicand_element = mem (multiplicand0 + i)
       in case multiplier_loop multiplicand_element multiplier0 multiplier_size
                 result0 result_size i 0 mem of
            None \<Rightarrow> None
          | Some mem' \<Rightarrow>
              multiplicand_loop multiplicand0 multiplicand_size multiplier0 multiplier_size
                result0 result_size (i + 1) mem'
     else Some mem)"
  by pat_completeness auto
termination
  by (relation "measure (\<lambda>(a0, multiplicand_size, b0, bs, r0, rs, i, mem). multiplicand_size - i)")
    auto

text \<open>
  \<open>bigint_multiply_raw\<close>: the three pointers are addresses into \<open>mem\<close>, the two sizes
  are \<open>unsigned int\<close> values. The final memory, or \<open>None\<close> when an access left the
  \<open>result_size\<close> elements of the result.
\<close>

definition bigint_multiply_raw ::
  "addr \<Rightarrow> nat \<Rightarrow> addr \<Rightarrow> nat \<Rightarrow> addr \<Rightarrow> memory \<Rightarrow> memory option" where
  "bigint_multiply_raw multiplicand0 multiplicand_size multiplier0 multiplier_size result0 mem =
    (let result_size = uint_add multiplicand_size multiplier_size;
         mem = memset_zero result0 result_size mem
     in multiplicand_loop multiplicand0 multiplicand_size multiplier0 multiplier_size
          result0 result_size 0 mem)"

section \<open>A run, stopped at a pair\<close>

text \<open>
  The state of a run when it arrives at the pair \<open>(i, j)\<close>: the rows before \<open>i\<close> are
  complete and so are the columns before \<open>j\<close> of row \<open>i\<close>. It is the kernel's own
  loops, stopped at \<open>i\<close> and at \<open>j\<close>: the register \<open>multiplicand_element\<close> of row \<open>i\<close>
  and the memory. (\<open>run_through_pair\<close> below shows that a run passes through it.)
\<close>

definition state_before_pair ::
  "addr \<Rightarrow> addr \<Rightarrow> nat \<Rightarrow> addr \<Rightarrow> nat \<Rightarrow> nat \<Rightarrow> nat \<Rightarrow> memory \<Rightarrow> (uint64_t \<times> memory) option" where
  "state_before_pair multiplicand0 multiplier0 multiplier_size result0 result_size i j mem =
    (case multiplicand_loop multiplicand0 i multiplier0 multiplier_size result0 result_size 0
            (memset_zero result0 result_size mem) of
       None \<Rightarrow> None
     | Some mem_i \<Rightarrow>
         map_option (Pair (mem_i (multiplicand0 + i)))
           (multiplier_loop (mem_i (multiplicand0 + i)) multiplier0 j result0 result_size i 0
              mem_i))"

section \<open>Buffers of a call\<close>

text \<open>
  The \<open>n\<close> elements at \<open>p\<close> and the \<open>m\<close> elements at \<open>q\<close> do not overlap. The result
  of a multiplication "must not alias any operand buffer"; the two operands may be the
  same buffer (a squaring).
\<close>

definition buffers_disjoint :: "addr \<Rightarrow> nat \<Rightarrow> addr \<Rightarrow> nat \<Rightarrow> bool" where
  "buffers_disjoint p n q m \<longleftrightarrow> p + n \<le> q \<or> q + m \<le> p"

text \<open>Concrete memories for the worked examples.\<close>

definition zero_memory :: memory where
  "zero_memory q = 0"

definition example_memory :: memory where
  "example_memory = zero_memory
     (0 := 0xFFFFFFFFFFFFFFFF, 1 := 0xFFFFFFFFFFFFFFFF, 2 := 0xFFFFFFFFFFFFFFFF, 3 := 1,
      4 := 7, 5 := 9, 6 := 11, 7 := 13, 8 := 15)"

text \<open>Every element of both operands at the maximum value.\<close>

definition stress_memory :: memory where
  "stress_memory = zero_memory
     (0 := 0xFFFFFFFFFFFFFFFF, 1 := 0xFFFFFFFFFFFFFFFF, 2 := 0xFFFFFFFFFFFFFFFF,
      3 := 0xFFFFFFFFFFFFFFFF)"

section \<open>The reference algorithm of the specification\<close>

text \<open>
  The schoolbook multiplication as the specification words it, on lists of elements
  and with unbounded arithmetic: the result is zeroed; for every pair \<open>(i, j)\<close> the
  full double-element product is split into a high and a low half, which are added
  into the result at positions \<open>i + j\<close> and \<open>i + j + 1\<close>; any carry is propagated into
  successive higher elements until an addition produces no further carry.
  The positions \<open>i + j\<close> and \<open>i + j + 1\<close> lie inside the \<open>L1 + L2\<close> elements of the
  result for every pair; a carry out of the last element would have no element to go to
  and \<open>reference_propagate_carry\<close> stops there.
\<close>

function reference_propagate_carry :: "nat \<Rightarrow> nat \<Rightarrow> uint64_t list \<Rightarrow> uint64_t list" where
  "reference_propagate_carry carry k result =
    (if carry = 0 \<or> length result \<le> k then result
     else let sum = unat (result ! k) + carry
          in reference_propagate_carry (sum div 2 ^ 64) (k + 1) (result[k := of_nat sum]))"
  by pat_completeness auto
termination
  by (relation "measure (\<lambda>(carry, k, result). length result - k)") auto

definition reference_add_product ::
  "uint64_t \<Rightarrow> uint64_t \<Rightarrow> nat \<Rightarrow> uint64_t list \<Rightarrow> uint64_t list" where
  "reference_add_product x y k result =
    (let product = unat x * unat y;
         low = product mod 2 ^ 64;
         high = product div 2 ^ 64;
         sum0 = unat (result ! k) + low;
         result = result[k := of_nat sum0];
         sum1 = unat (result ! (k + 1)) + high + sum0 div 2 ^ 64;
         result = result[k + 1 := of_nat sum1]
     in reference_propagate_carry (sum1 div 2 ^ 64) (k + 2) result)"

definition reference_multiply :: "uint64_t list \<Rightarrow> uint64_t list \<Rightarrow> uint64_t list" where
  "reference_multiply multiplicand multiplier =
    fold (\<lambda>i. fold (\<lambda>j. reference_add_product (multiplicand ! i) (multiplier ! j) (i + j))
                  [0..<length multiplier])
         [0..<length multiplicand]
         (replicate (length multiplicand + length multiplier) 0)"

section \<open>Basic facts\<close>

text \<open>
  The recursive equations of the loops are unfolded by hand, one iteration at a time.
\<close>

declare carry_loop.simps [simp del]
declare multiplier_loop.simps [simp del]
declare multiplicand_loop.simps [simp del]
declare reference_propagate_carry.simps [simp del]

lemma load_bigint_length: "length (load_bigint mem p n) = n"
  by (simp add: load_bigint_def)

lemma load_bigint_0: "load_bigint mem p 0 = []"
  by (simp add: load_bigint_def)

lemma load_bigint_Suc: "load_bigint mem p (Suc n) = mem p # load_bigint mem (Suc p) n"
proof -
  have "[0..<Suc n] = 0 # map Suc [0..<n]"
    by (simp add: upt_conv_Cons map_Suc_upt del: upt_Suc)
  then show ?thesis
    by (simp add: load_bigint_def comp_def del: upt_Suc)
qed

lemma load_bigint_nth: "k < n \<Longrightarrow> load_bigint mem p n ! k = mem (p + k)"
  by (simp add: load_bigint_def)

lemma load_bigint_cong:
  "(\<And>q. p \<le> q \<Longrightarrow> q < p + n \<Longrightarrow> mem q = mem' q) \<Longrightarrow> load_bigint mem p n = load_bigint mem' p n"
  by (simp add: load_bigint_def)

lemma load_bigint_add:
  "load_bigint mem p (n + k) = load_bigint mem p n @ load_bigint mem (p + n) k"
proof (induction n arbitrary: p)
  case 0
  show ?case by (simp add: load_bigint_0)
next
  case (Suc n)
  show ?case using Suc.IH [of "Suc p"] by (simp add: load_bigint_Suc)
qed

lemma bigint_value_append:
  "bigint_value (xs @ ys) = bigint_value xs + 2 ^ (64 * length xs) * bigint_value ys"
  by (induction xs) (simp_all add: algebra_simps power_add)

lemma bigint_value_less: "bigint_value xs < 2 ^ (64 * length xs)"
proof (induction xs)
  case Nil
  show ?case by simp
next
  case (Cons w ws)
  have w: "unat w < 2 ^ 64"
    using unsigned_less [of w] by simp
  have "unat w + 2 ^ 64 * bigint_value ws < 2 ^ 64 + 2 ^ 64 * bigint_value ws"
    using w by simp
  also have "\<dots> = 2 ^ 64 * (bigint_value ws + 1)"
    by simp
  also have "\<dots> \<le> 2 ^ 64 * 2 ^ (64 * length ws)"
    using Cons.IH by (intro mult_le_mono2) simp
  finally show ?case
    by (simp add: power_add)
qed

lemma bigint_value_replicate_0: "bigint_value (replicate n 0) = 0"
  by (induction n) simp_all

lemma digit_inject:
  fixes a b u v B :: nat
  assumes "a < B" "b < B" "a + B * u = b + B * v"
  shows "a = b \<and> u = v"
proof -
  have "(a + B * u) mod B = a" "(b + B * v) mod B = b"
    using assms(1,2) by simp_all
  then have ab: "a = b"
    using assms(3) by simp
  then have "B * u = B * v"
    using assms(3) by simp
  moreover have "0 < B"
    using assms(1) by simp
  ultimately have "u = v"
    by simp
  with ab show ?thesis
    by simp
qed

lemma unat_less_base: "unat (w :: uint64_t) < 2 ^ 64"
  using unsigned_less [of w] by simp

lemma bigint_value_inject:
  "length xs = length ys \<Longrightarrow> bigint_value xs = bigint_value ys \<Longrightarrow> xs = ys"
proof (induction xs ys rule: list_induct2)
  case Nil
  show ?case by simp
next
  case (Cons x xs y ys)
  have "unat x + 2 ^ 64 * bigint_value xs = unat y + 2 ^ 64 * bigint_value ys"
    using Cons.prems by simp
  then have "unat x = unat y \<and> bigint_value xs = bigint_value ys"
    by (rule digit_inject [OF unat_less_base unat_less_base])
  with Cons.IH show ?case
    by (simp add: word_unat_eq_iff)
qed

lemma carry_le_1:
  fixes a b B :: nat
  assumes "a < B" "b < B"
  shows "(a + b) div B = (if B \<le> a + b then 1 else 0)"
proof (cases "B \<le> a + b")
  case True
  have "a + b < 2 * B"
    using assms by simp
  with True have "(a + b) div B = 1"
    by (intro div_nat_eqI) simp_all
  with True show ?thesis
    by simp
next
  case False
  then show ?thesis
    by simp
qed

lemma add_d_less_iff: "add_d x y < y \<longleftrightarrow> 2 ^ 64 \<le> unat x + unat y"
proof -
  have "y \<le> y + x \<longleftrightarrow> unat y + unat x < 2 ^ LENGTH(64)"
    by (rule no_olen_add_nat)
  then have "\<not> y \<le> y + x \<longleftrightarrow> 2 ^ 64 \<le> unat x + unat y"
    by (simp only: not_less [symmetric] add.commute [of "unat y"]) simp
  moreover have "add_d x y < y \<longleftrightarrow> \<not> y \<le> y + x"
    by (simp only: add_d_def add.commute [of x y] not_le)
  ultimately show ?thesis
    by (rule trans [rotated])
qed

lemma unat_add_d: "unat (add_d x y) = (unat x + unat y) mod 2 ^ 64"
  by (simp add: add_d_def unat_word_ariths)

lemma unat_sltu_add_d: "unat (sltu (add_d x y) y) = (unat x + unat y) div 2 ^ 64"
  unfolding carry_le_1 [OF unat_less_base unat_less_base]
  by (simp add: sltu_def add_d_less_iff)

lemma sltu_cases: "sltu x y = 0 \<or> sltu x y = 1"
  by (simp add: sltu_def)

lemma unat_mul_d: "unat (mul_d x y) = (unat x * unat y) mod 2 ^ 64"
  by (simp add: mul_d_def unat_word_ariths)

lemma unat_mulh_du: "unat (mulh_du x y) = (unat x * unat y) div 2 ^ 64"
proof -
  have "unat x * unat y < 2 ^ 64 * 2 ^ 64"
    by (intro mult_strict_mono unat_less_base) simp_all
  then have "(unat x * unat y) div 2 ^ 64 < 2 ^ 64"
    by (simp add: less_mult_imp_div_less)
  then show ?thesis
    by (simp add: mulh_du_def unat_of_nat)
qed

lemma unat_or_d_carry:
  assumes "a = 0 \<or> a = 1" "b = 0 \<or> b = 1"
  shows "unat (or_d a b) = max (unat a) (unat b)"
proof -
  have "or_d 0 0 = 0" "or_d 0 1 = 1" "or_d 1 0 = 1" "or_d 1 1 = 1"
    by (simp_all add: or_d_def)
  with assms show ?thesis
    by fastforce
qed

section \<open>The two-element addition of a product\<close>

text \<open>
  The head of the assembler block adds the 128-bit product to two result elements with
  three wrapping additions; the two carries it combines with \<open>or\<close> are never both set.
  The two elements it stores and the carry in \<open>$t0\<close> are the exact sum.
\<close>

lemma pair_add_nat:
  fixes B P w0 w1 :: nat
  assumes w0: "w0 < B" and w1: "w1 < B" and P: "P < B * B"
  shows "(w0 + P mod B) mod B
       + B * (((w1 + P div B) mod B + (w0 + P mod B) div B) mod B)
       + B * B * max (((w1 + P div B) mod B + (w0 + P mod B) div B) div B) ((w1 + P div B) div B)
       = w0 + B * w1 + P"
proof -
  define s0 where "s0 = w0 + P mod B"
  define s1 where "s1 = w1 + P div B"
  define s2 where "s2 = s1 mod B + s0 div B"
  define c1 where "c1 = s1 div B"
  define c2 where "c2 = s2 div B"
  have e0: "s0 mod B + B * (s0 div B) = s0"
    by (rule mod_mult_div_eq)
  have e1: "s1 mod B + B * c1 = s1"
    unfolding c1_def by (rule mod_mult_div_eq)
  have e2: "s2 mod B + B * c2 = s2"
    unfolding c2_def by (rule mod_mult_div_eq)
  have eP: "P mod B + B * (P div B) = P"
    by (rule mod_mult_div_eq)
  have total: "s0 mod B + B * (s2 mod B) + B * B * (c2 + c1) = w0 + B * w1 + P"
  proof -
    have "s0 mod B + B * (s2 mod B) + B * B * (c2 + c1)
        = s0 mod B + B * (s2 mod B + B * c2) + B * (B * c1)"
      by (simp add: algebra_simps)
    also have "\<dots> = s0 mod B + B * (s1 mod B + s0 div B) + B * (B * c1)"
      unfolding e2 by (simp only: s2_def)
    also have "\<dots> = (s0 mod B + B * (s0 div B)) + B * (s1 mod B + B * c1)"
      by (simp add: algebra_simps)
    also have "\<dots> = s0 + B * s1"
      by (simp only: e0 e1)
    also have "\<dots> = w0 + B * w1 + (P mod B + B * (P div B))"
      by (simp add: s0_def s1_def algebra_simps)
    also have "\<dots> = w0 + B * w1 + P"
      by (simp only: eP)
    finally show ?thesis .
  qed
  have bound: "w0 + B * w1 + P < 2 * (B * B)"
  proof -
    have "B * (w1 + 1) \<le> B * B"
      using w1 by (intro mult_le_mono2) simp
    then have "B * w1 + B \<le> B * B"
      by (simp add: algebra_simps)
    with w0 P show ?thesis
      by simp
  qed
  have "c2 + c1 \<le> 1"
  proof (rule ccontr)
    assume "\<not> c2 + c1 \<le> 1"
    then have "2 \<le> c2 + c1"
      by simp
    then have "B * B * 2 \<le> B * B * (c2 + c1)"
      by (rule mult_le_mono2)
    with total bound show False
      by simp
  qed
  then have "max c2 c1 = c2 + c1"
    by arith
  with total show ?thesis
    by (simp only: s0_def s1_def s2_def c1_def c2_def)
qed

lemma unat_product_less: "unat (x :: uint64_t) * unat (y :: uint64_t) < 2 ^ 64 * 2 ^ 64"
  by (intro mult_strict_mono unat_less_base) simp_all

lemma multiply_add_pair_correct:
  assumes "multiply_add_pair x y w0 w1 = (lo, hi, c)"
  shows "unat lo + 2 ^ 64 * unat hi + 2 ^ 64 * 2 ^ 64 * unat c
           = unat w0 + 2 ^ 64 * unat w1 + unat x * unat y"
    and "c = 0 \<or> c = 1"
proof -
  define t0 where "t0 = sltu (add_d w0 (mul_d x y)) (mul_d x y)"
  define t4 where "t4 = add_d w1 (mulh_du x y)"
  define t1 where "t1 = sltu t4 (mulh_du x y)"
  define t0' where "t0' = sltu (add_d t4 t0) t0"
  have "multiply_add_pair x y w0 w1 = (add_d w0 (mul_d x y), add_d t4 t0, or_d t0' t1)"
    by (simp add: multiply_add_pair_def Let_def t0_def t4_def t1_def t0'_def)
  with assms have lo: "lo = add_d w0 (mul_d x y)" and hi: "hi = add_d t4 t0"
    and c: "c = or_d t0' t1"
    by auto
  have bits: "t0' = 0 \<or> t0' = 1" "t1 = 0 \<or> t1 = 1"
    unfolding t0'_def t1_def by (rule sltu_cases)+
  have ucarry: "unat c = max (unat t0') (unat t1)"
    unfolding c by (rule unat_or_d_carry [OF bits])
  have ut0: "unat t0 = (unat w0 + (unat x * unat y) mod 2 ^ 64) div 2 ^ 64"
    unfolding t0_def by (simp only: unat_sltu_add_d unat_mul_d)
  have ut4: "unat t4 = (unat w1 + (unat x * unat y) div 2 ^ 64) mod 2 ^ 64"
    unfolding t4_def by (simp only: unat_add_d unat_mulh_du)
  have ut1: "unat t1 = (unat w1 + (unat x * unat y) div 2 ^ 64) div 2 ^ 64"
    unfolding t1_def t4_def by (simp only: unat_sltu_add_d unat_mulh_du)
  have ut0': "unat t0' = (unat t4 + unat t0) div 2 ^ 64"
    unfolding t0'_def by (simp only: unat_sltu_add_d)
  have ulo: "unat lo = (unat w0 + (unat x * unat y) mod 2 ^ 64) mod 2 ^ 64"
    unfolding lo by (simp only: unat_add_d unat_mul_d)
  have uhi: "unat hi = (unat t4 + unat t0) mod 2 ^ 64"
    unfolding hi by (simp only: unat_add_d)
  show "unat lo + 2 ^ 64 * unat hi + 2 ^ 64 * 2 ^ 64 * unat c
           = unat w0 + 2 ^ 64 * unat w1 + unat x * unat y"
    unfolding ucarry ulo uhi ut0' ut1 ut4 ut0
    by (rule pair_add_nat [OF unat_less_base unat_less_base unat_product_less])
  from bits show "c = 0 \<or> c = 1"
    unfolding c or_d_def by auto
qed

section \<open>Carry propagation stays inside the result\<close>

text \<open>
  "The carry can never overflow beyond the end of the result": when the elements from
  \<open>p\<close> up to the end of the result denote a value that still has room for what is
  added, the carry loop ends before the end, and the block adds exactly the product.
\<close>

lemma power_64_Suc: "(2::nat) ^ (64 * Suc n) = 2 ^ 64 * 2 ^ (64 * n)"
  by (simp add: power_add)

lemma carry_loop_correct:
  "bigint_value (load_bigint mem p n) + 1 < 2 ^ (64 * n) \<Longrightarrow>
   \<exists>mem'. carry_loop 1 p (p + n) mem = Some mem'
      \<and> bigint_value (load_bigint mem' p n) = bigint_value (load_bigint mem p n) + 1
      \<and> (\<forall>q. q < p \<or> p + n \<le> q \<longrightarrow> mem' q = mem q)"
proof (induction n arbitrary: p mem)
  case 0
  then show ?case
    by (simp add: load_bigint_0)
next
  case (Suc n)
  define w where "w = mem p"
  define T where "T = bigint_value (load_bigint mem (Suc p) n)"
  define mem1 where "mem1 = mem(p := add_d w 1)"
  define t0' where "t0' = sltu (add_d w 1) 1"
  have V: "bigint_value (load_bigint mem p (Suc n)) = unat w + 2 ^ 64 * T"
    by (simp add: load_bigint_Suc w_def T_def)
  have unfold: "carry_loop 1 p (p + Suc n) mem =
      (if t0' \<noteq> 0 then carry_loop t0' (p + 1) (p + Suc n) mem1 else Some mem1)"
    by (subst carry_loop.simps) (simp add: Let_def w_def mem1_def t0'_def)
  have T1: "load_bigint mem1 (Suc p) n = load_bigint mem (Suc p) n"
    by (rule load_bigint_cong) (simp add: mem1_def)
  have V1: "bigint_value (load_bigint mem1 p (Suc n)) = unat (add_d w 1) + 2 ^ 64 * T"
    using T1 by (simp add: load_bigint_Suc T_def) (simp add: mem1_def)
  have sum: "unat (add_d w 1) + 2 ^ 64 * unat t0' = unat w + 1"
    unfolding t0'_def unat_add_d unat_sltu_add_d by (simp only: unat_1 mod_mult_div_eq)
  show ?case
  proof (cases "t0' = 0")
    case True
    with sum have "unat (add_d w 1) = unat w + 1"
      by simp
    with V V1 have "bigint_value (load_bigint mem1 p (Suc n))
        = bigint_value (load_bigint mem p (Suc n)) + 1"
      by simp
    moreover have "\<forall>q. q < p \<or> p + Suc n \<le> q \<longrightarrow> mem1 q = mem q"
      by (simp add: mem1_def)
    moreover have "carry_loop 1 p (p + Suc n) mem = Some mem1"
      using True unfold by simp
    ultimately show ?thesis
      by blast
  next
    case False
    then have one: "t0' = 1"
      using sltu_cases [of "add_d w 1" 1] by (simp add: t0'_def)
    with sum have wrap: "unat (add_d w 1) + 2 ^ 64 = unat w + 1"
      by simp
    have "unat w + 2 ^ 64 * T + 1 < 2 ^ 64 * 2 ^ (64 * n)"
      using Suc.prems by (simp only: V power_64_Suc)
    with wrap have "2 ^ 64 * (T + 1) < 2 ^ 64 * (2::nat) ^ (64 * n)"
      by (simp add: algebra_simps)
    then have "T + 1 < 2 ^ (64 * n)"
      by simp
    then have "bigint_value (load_bigint mem1 (Suc p) n) + 1 < 2 ^ (64 * n)"
      by (simp only: T1 T_def)
    from Suc.IH [OF this] obtain mem' where
      run: "carry_loop 1 (Suc p) (Suc p + n) mem1 = Some mem'" and
      val: "bigint_value (load_bigint mem' (Suc p) n)
              = bigint_value (load_bigint mem1 (Suc p) n) + 1" and
      frame: "\<forall>q. q < Suc p \<or> Suc p + n \<le> q \<longrightarrow> mem' q = mem1 q"
      by blast
    have p: "mem' p = add_d w 1"
      using frame by (simp add: mem1_def)
    have "bigint_value (load_bigint mem' p (Suc n)) = unat (add_d w 1) + 2 ^ 64 * (T + 1)"
      by (simp add: load_bigint_Suc p val T1 T_def)
    also have "\<dots> = unat w + 2 ^ 64 * T + 1"
      using wrap by (simp add: algebra_simps)
    finally have "bigint_value (load_bigint mem' p (Suc n))
        = bigint_value (load_bigint mem p (Suc n)) + 1"
      by (simp only: V)
    moreover have "\<forall>q. q < p \<or> p + Suc n \<le> q \<longrightarrow> mem' q = mem q"
      using frame by (auto simp: mem1_def)
    moreover have "carry_loop 1 p (p + Suc n) mem = Some mem'"
      using one unfold run by simp
    ultimately show ?thesis
      by blast
  qed
qed

lemma load_bigint_Suc_Suc:
  "load_bigint mem p (Suc (Suc n)) = mem p # mem (Suc p) # load_bigint mem (Suc (Suc p)) n"
  by (simp add: load_bigint_Suc)

lemma power_64_Suc_Suc: "(2::nat) ^ (64 * Suc (Suc n)) = 2 ^ 64 * 2 ^ 64 * 2 ^ (64 * n)"
  by (simp add: power_add)

lemma multiply_step_correct:
  assumes bound: "bigint_value (load_bigint mem p (Suc (Suc n))) + unat x * unat y
                    < 2 ^ (64 * Suc (Suc n))"
  shows "\<exists>mem'. multiply_step x y p (p + Suc (Suc n)) mem = Some mem'
      \<and> bigint_value (load_bigint mem' p (Suc (Suc n)))
          = bigint_value (load_bigint mem p (Suc (Suc n))) + unat x * unat y
      \<and> (\<forall>q. q < p \<or> p + Suc (Suc n) \<le> q \<longrightarrow> mem' q = mem q)"
proof -
  obtain lo hi c where pair: "multiply_add_pair x y (mem p) (mem (Suc p)) = (lo, hi, c)"
    by (metis prod_cases3)
  define T where "T = bigint_value (load_bigint mem (Suc (Suc p)) n)"
  define mem1 where "mem1 = mem(p := lo, Suc p := hi)"
  have sum: "unat lo + 2 ^ 64 * unat hi + 2 ^ 64 * 2 ^ 64 * unat c
           = unat (mem p) + 2 ^ 64 * unat (mem (Suc p)) + unat x * unat y"
    and bit: "c = 0 \<or> c = 1"
    using multiply_add_pair_correct [OF pair] by blast+
  have V: "bigint_value (load_bigint mem p (Suc (Suc n)))
      = unat (mem p) + 2 ^ 64 * unat (mem (Suc p)) + 2 ^ 64 * 2 ^ 64 * T"
    by (simp add: load_bigint_Suc_Suc T_def)
  have unfold: "multiply_step x y p (p + Suc (Suc n)) mem =
      (if c = 0 then Some mem1 else carry_loop c (p + 2) (p + Suc (Suc n)) mem1)"
    using pair by (simp add: multiply_step_def Let_def mem1_def)
  have T1: "load_bigint mem1 (Suc (Suc p)) n = load_bigint mem (Suc (Suc p)) n"
    by (rule load_bigint_cong) (simp add: mem1_def)
  have V1: "bigint_value (load_bigint mem1 p (Suc (Suc n)))
      = unat lo + 2 ^ 64 * unat hi + 2 ^ 64 * 2 ^ 64 * T"
    using T1 by (simp add: load_bigint_Suc_Suc T_def) (simp add: mem1_def)
  have frame1: "\<forall>q. q < p \<or> p + Suc (Suc n) \<le> q \<longrightarrow> mem1 q = mem q"
    by (simp add: mem1_def)
  show ?thesis
  proof (cases "c = 0")
    case True
    with sum V V1 have "bigint_value (load_bigint mem1 p (Suc (Suc n)))
        = bigint_value (load_bigint mem p (Suc (Suc n))) + unat x * unat y"
      by simp
    moreover have "multiply_step x y p (p + Suc (Suc n)) mem = Some mem1"
      using True unfold by simp
    ultimately show ?thesis
      using frame1 by blast
  next
    case False
    with bit have one: "c = 1"
      by simp
    with sum have sum1: "unat lo + 2 ^ 64 * unat hi + 2 ^ 64 * 2 ^ 64
           = unat (mem p) + 2 ^ 64 * unat (mem (Suc p)) + unat x * unat y"
      by simp
    have "unat (mem p) + 2 ^ 64 * unat (mem (Suc p)) + 2 ^ 64 * 2 ^ 64 * T + unat x * unat y
          < 2 ^ 64 * 2 ^ 64 * 2 ^ (64 * n)"
      using bound by (simp only: V power_64_Suc_Suc)
    with sum1 have "unat lo + 2 ^ 64 * unat hi + 2 ^ 64 * 2 ^ 64 * (T + 1)
          < 2 ^ 64 * 2 ^ 64 * 2 ^ (64 * n)"
      by (simp add: algebra_simps)
    then have "2 ^ 64 * 2 ^ 64 * (T + 1) < 2 ^ 64 * 2 ^ 64 * (2::nat) ^ (64 * n)"
      by simp
    then have "T + 1 < 2 ^ (64 * n)"
      by simp
    then have "bigint_value (load_bigint mem1 (Suc (Suc p)) n) + 1 < 2 ^ (64 * n)"
      by (simp only: T1 T_def)
    from carry_loop_correct [OF this] obtain mem' where
      run: "carry_loop 1 (Suc (Suc p)) (Suc (Suc p) + n) mem1 = Some mem'" and
      val: "bigint_value (load_bigint mem' (Suc (Suc p)) n)
              = bigint_value (load_bigint mem1 (Suc (Suc p)) n) + 1" and
      frame: "\<forall>q. q < Suc (Suc p) \<or> Suc (Suc p) + n \<le> q \<longrightarrow> mem' q = mem1 q"
      by blast
    have p: "mem' p = lo" "mem' (Suc p) = hi"
      using frame by (simp_all add: mem1_def)
    have "bigint_value (load_bigint mem' p (Suc (Suc n)))
        = unat lo + 2 ^ 64 * unat hi + 2 ^ 64 * 2 ^ 64 * (T + 1)"
      by (simp add: load_bigint_Suc_Suc p val T1 T_def)
    also have "\<dots> = unat (mem p) + 2 ^ 64 * unat (mem (Suc p)) + 2 ^ 64 * 2 ^ 64 * T
        + unat x * unat y"
      using sum1 by (simp add: algebra_simps)
    finally have "bigint_value (load_bigint mem' p (Suc (Suc n)))
        = bigint_value (load_bigint mem p (Suc (Suc n))) + unat x * unat y"
      by (simp only: V)
    moreover have "\<forall>q. q < p \<or> p + Suc (Suc n) \<le> q \<longrightarrow> mem' q = mem q"
      using frame by (auto simp: mem1_def)
    moreover have "multiply_step x y p (p + Suc (Suc n)) mem = Some mem'"
      using one unfold run by simp
    ultimately show ?thesis
      by blast
  qed
qed

lemma bigint_value_load_add:
  "bigint_value (load_bigint mem p (n + k))
     = bigint_value (load_bigint mem p n) + 2 ^ (64 * n) * bigint_value (load_bigint mem (p + n) k)"
  by (simp only: load_bigint_add bigint_value_append load_bigint_length)

lemma scaled_less:
  fixes a c u v :: nat
  assumes "a + c * u < c * v"
  shows "u < v"
proof -
  have "c * u < c * v"
    by (rule le_less_trans [OF le_add2 assms])
  then show ?thesis
    by simp
qed

lemma multiply_step_at:
  assumes k: "k + 2 \<le> N"
    and bound: "bigint_value (load_bigint mem r N) + 2 ^ (64 * k) * (unat x * unat y)
                  < 2 ^ (64 * N)"
  shows "\<exists>mem'. multiply_step x y (r + k) (r + N) mem = Some mem'
      \<and> bigint_value (load_bigint mem' r N)
          = bigint_value (load_bigint mem r N) + 2 ^ (64 * k) * (unat x * unat y)
      \<and> (\<forall>q. q < r \<or> r + N \<le> q \<longrightarrow> mem' q = mem q)"
proof -
  define n where "n = N - (k + 2)"
  have N: "N = k + Suc (Suc n)"
    using k by (simp add: n_def)
  define low where "low = bigint_value (load_bigint mem r k)"
  define W where "W = bigint_value (load_bigint mem (r + k) (Suc (Suc n)))"
  have V: "bigint_value (load_bigint mem r N) = low + 2 ^ (64 * k) * W"
    unfolding N low_def W_def by (rule bigint_value_load_add)
  have pw: "(2::nat) ^ (64 * N) = 2 ^ (64 * k) * 2 ^ (64 * Suc (Suc n))"
    unfolding N by (simp only: distrib_left power_add)
  have "low + 2 ^ (64 * k) * (W + unat x * unat y) < 2 ^ (64 * k) * 2 ^ (64 * Suc (Suc n))"
    using bound unfolding V pw by (simp only: distrib_left add.assoc)
  then have "W + unat x * unat y < 2 ^ (64 * Suc (Suc n))"
    by (rule scaled_less)
  then have "bigint_value (load_bigint mem (r + k) (Suc (Suc n))) + unat x * unat y
      < 2 ^ (64 * Suc (Suc n))"
    by (simp only: W_def)
  from multiply_step_correct [OF this] obtain mem' where
    run: "multiply_step x y (r + k) (r + k + Suc (Suc n)) mem = Some mem'" and
    val: "bigint_value (load_bigint mem' (r + k) (Suc (Suc n))) = W + unat x * unat y" and
    frame: "\<forall>q. q < r + k \<or> r + k + Suc (Suc n) \<le> q \<longrightarrow> mem' q = mem q"
    unfolding W_def by blast
  have low': "load_bigint mem' r k = load_bigint mem r k"
    by (rule load_bigint_cong) (simp add: frame)
  have "bigint_value (load_bigint mem' r N) = low + 2 ^ (64 * k) * (W + unat x * unat y)"
    unfolding N by (simp only: bigint_value_load_add low' low_def val)
  then have "bigint_value (load_bigint mem' r N)
      = bigint_value (load_bigint mem r N) + 2 ^ (64 * k) * (unat x * unat y)"
    unfolding V by (simp add: algebra_simps)
  moreover have "multiply_step x y (r + k) (r + N) mem = Some mem'"
    using run by (simp add: N add.assoc)
  moreover have "\<forall>q. q < r \<or> r + N \<le> q \<longrightarrow> mem' q = mem q"
    using frame by (auto simp: N)
  ultimately show ?thesis
    by blast
qed

section \<open>The loops\<close>

text \<open>
  The invariant of both loops: the result denotes the sum of the partial products added
  so far, and adding all the remaining ones stays below \<open>2 ^ (64 * N)\<close>. The operands
  are read from memory at every iteration; the result overlaps neither, so they keep the
  elements they had.
\<close>

lemma uint_add_small: "x + y < 2 ^ 32 \<Longrightarrow> uint_add x y = x + y"
  by (simp add: uint_add_def)

lemma multiplier_loop_correct:
  assumes disj: "b + L2 \<le> r \<or> r + N \<le> b"
    and i: "i + L2 < N"
    and N: "N < 2 ^ 32"
    and L2: "L2 = j + n"
    and bound: "bigint_value (load_bigint mem r N)
        + 2 ^ (64 * (i + j)) * (unat ae * bigint_value (load_bigint mem (b + j) n))
        < 2 ^ (64 * N)"
  shows "\<exists>mem'. multiplier_loop ae b L2 r N i j mem = Some mem'
      \<and> bigint_value (load_bigint mem' r N) = bigint_value (load_bigint mem r N)
          + 2 ^ (64 * (i + j)) * (unat ae * bigint_value (load_bigint mem (b + j) n))
      \<and> (\<forall>q. q < r \<or> r + N \<le> q \<longrightarrow> mem' q = mem q)"
  using L2 bound
proof (induction n arbitrary: j mem)
  case 0
  then have "multiplier_loop ae b L2 r N i j mem = Some mem"
    by (subst multiplier_loop.simps) simp
  then show ?case
    by (simp add: load_bigint_0)
next
  case (Suc n)
  define V where "V = bigint_value (load_bigint mem r N)"
  define c where "c = (2::nat) ^ (64 * (i + j))"
  define R where "R = bigint_value (load_bigint mem (b + Suc j) n)"
  define be where "be = mem (b + j)"
  have j: "j < L2"
    using Suc.prems(1) by simp
  have cS: "(2::nat) ^ (64 * (i + Suc j)) = c * 2 ^ 64"
  proof -
    have "64 * (i + Suc j) = 64 * (i + j) + 64"
      by simp
    then show ?thesis
      by (simp only: c_def power_add)
  qed
  have ops: "bigint_value (load_bigint mem (b + j) (Suc n)) = unat be + 2 ^ 64 * R"
    by (simp add: load_bigint_Suc be_def R_def)
  have total: "V + c * (unat ae * (unat be + 2 ^ 64 * R)) < 2 ^ (64 * N)"
    using Suc.prems(2) by (simp only: V_def c_def ops)
  have split: "V + c * (unat ae * (unat be + 2 ^ 64 * R))
      = V + c * (unat ae * unat be) + c * 2 ^ 64 * (unat ae * R)"
    by (simp add: algebra_simps)
  have "V + c * (unat ae * unat be) < 2 ^ (64 * N)"
    using total unfolding split by simp
  then have "bigint_value (load_bigint mem r N) + 2 ^ (64 * (i + j)) * (unat ae * unat be)
      < 2 ^ (64 * N)"
    by (simp only: V_def c_def)
  moreover have "i + j + 2 \<le> N"
    using i j by simp
  ultimately obtain mem1 where
    run1: "multiply_step ae be (r + (i + j)) (r + N) mem = Some mem1" and
    val1: "bigint_value (load_bigint mem1 r N) = V + c * (unat ae * unat be)" and
    frame1: "\<forall>q. q < r \<or> r + N \<le> q \<longrightarrow> mem1 q = mem q"
    unfolding V_def c_def using multiply_step_at [of "i + j" N mem r ae be] by blast
  have idx: "uint_add i j = i + j"
    using i j N by (intro uint_add_small) simp
  have unfold: "multiplier_loop ae b L2 r N i j mem = multiplier_loop ae b L2 r N i (Suc j) mem1"
    using j run1 by (subst multiplier_loop.simps) (simp add: Let_def idx be_def)
  have ops1: "load_bigint mem1 (b + Suc j) n = load_bigint mem (b + Suc j) n"
    using disj frame1 Suc.prems(1) by (intro load_bigint_cong) auto
  have "bigint_value (load_bigint mem1 r N)
        + 2 ^ (64 * (i + Suc j)) * (unat ae * bigint_value (load_bigint mem1 (b + Suc j) n))
        = V + c * (unat ae * (unat be + 2 ^ 64 * R))"
    unfolding split by (simp only: val1 cS ops1 R_def)
  with total have "bigint_value (load_bigint mem1 r N)
        + 2 ^ (64 * (i + Suc j)) * (unat ae * bigint_value (load_bigint mem1 (b + Suc j) n))
        < 2 ^ (64 * N)"
    by simp
  moreover have "L2 = Suc j + n"
    using Suc.prems(1) by simp
  ultimately obtain mem' where
    run: "multiplier_loop ae b L2 r N i (Suc j) mem1 = Some mem'" and
    val: "bigint_value (load_bigint mem' r N) = bigint_value (load_bigint mem1 r N)
          + 2 ^ (64 * (i + Suc j)) * (unat ae * bigint_value (load_bigint mem1 (b + Suc j) n))" and
    frame: "\<forall>q. q < r \<or> r + N \<le> q \<longrightarrow> mem' q = mem1 q"
    using Suc.IH [of "Suc j" mem1] by blast
  have "bigint_value (load_bigint mem' r N) = V + c * (unat ae * (unat be + 2 ^ 64 * R))"
    unfolding split val by (simp only: val1 cS ops1 R_def)
  then have "bigint_value (load_bigint mem' r N) = bigint_value (load_bigint mem r N)
          + 2 ^ (64 * (i + j)) * (unat ae * bigint_value (load_bigint mem (b + j) (Suc n)))"
    by (simp only: V_def c_def ops)
  moreover have "\<forall>q. q < r \<or> r + N \<le> q \<longrightarrow> mem' q = mem q"
    using frame frame1 by simp
  moreover have "multiplier_loop ae b L2 r N i j mem = Some mem'"
    using unfold run by simp
  ultimately show ?case
    by blast
qed

lemma multiplier_loop_row:
  assumes disj: "b + L2 \<le> r \<or> r + N \<le> b"
    and i: "i + L2 < N"
    and N: "N < 2 ^ 32"
    and bound: "bigint_value (load_bigint mem r N)
        + 2 ^ (64 * i) * (unat ae * bigint_value (load_bigint mem b L2)) < 2 ^ (64 * N)"
  shows "\<exists>mem'. multiplier_loop ae b L2 r N i 0 mem = Some mem'
      \<and> bigint_value (load_bigint mem' r N) = bigint_value (load_bigint mem r N)
          + 2 ^ (64 * i) * (unat ae * bigint_value (load_bigint mem b L2))
      \<and> (\<forall>q. q < r \<or> r + N \<le> q \<longrightarrow> mem' q = mem q)"
  using multiplier_loop_correct [of b L2 r N i 0 L2 mem ae] disj i N bound by simp

lemma multiplicand_loop_correct:
  assumes disj_a: "a + L1 \<le> r \<or> r + N \<le> a"
    and disj_b: "b + L2 \<le> r \<or> r + N \<le> b"
    and size: "N = L1 + L2"
    and N: "N < 2 ^ 32"
    and L1: "L1 = i + n"
    and bound: "bigint_value (load_bigint mem r N)
        + 2 ^ (64 * i) * (bigint_value (load_bigint mem (a + i) n)
                          * bigint_value (load_bigint mem b L2))
        < 2 ^ (64 * N)"
  shows "\<exists>mem'. multiplicand_loop a L1 b L2 r N i mem = Some mem'
      \<and> bigint_value (load_bigint mem' r N) = bigint_value (load_bigint mem r N)
          + 2 ^ (64 * i) * (bigint_value (load_bigint mem (a + i) n)
                            * bigint_value (load_bigint mem b L2))
      \<and> (\<forall>q. q < r \<or> r + N \<le> q \<longrightarrow> mem' q = mem q)"
  using L1 bound
proof (induction n arbitrary: i mem)
  case 0
  then have "multiplicand_loop a L1 b L2 r N i mem = Some mem"
    by (subst multiplicand_loop.simps) simp
  then show ?case
    by (simp add: load_bigint_0)
next
  case (Suc n)
  define V where "V = bigint_value (load_bigint mem r N)"
  define c where "c = (2::nat) ^ (64 * i)"
  define Ra where "Ra = bigint_value (load_bigint mem (a + Suc i) n)"
  define Bv where "Bv = bigint_value (load_bigint mem b L2)"
  define ae where "ae = mem (a + i)"
  have i: "i < L1"
    using Suc.prems(1) by simp
  have cS: "(2::nat) ^ (64 * Suc i) = c * 2 ^ 64"
    unfolding c_def power_64_Suc by (rule mult.commute)
  have ops: "bigint_value (load_bigint mem (a + i) (Suc n)) = unat ae + 2 ^ 64 * Ra"
    by (simp add: load_bigint_Suc ae_def Ra_def)
  have total: "V + c * ((unat ae + 2 ^ 64 * Ra) * Bv) < 2 ^ (64 * N)"
    using Suc.prems(2) by (simp only: V_def c_def ops Bv_def)
  have split: "V + c * ((unat ae + 2 ^ 64 * Ra) * Bv)
      = V + c * (unat ae * Bv) + c * 2 ^ 64 * (Ra * Bv)"
    by (simp add: algebra_simps)
  have "V + c * (unat ae * Bv) < 2 ^ (64 * N)"
    using total unfolding split by simp
  then have "bigint_value (load_bigint mem r N)
        + 2 ^ (64 * i) * (unat ae * bigint_value (load_bigint mem b L2)) < 2 ^ (64 * N)"
    by (simp only: V_def c_def Bv_def)
  moreover have "i + L2 < N"
    using i size by simp
  ultimately obtain mem1 where
    run1: "multiplier_loop ae b L2 r N i 0 mem = Some mem1" and
    val1: "bigint_value (load_bigint mem1 r N) = V + c * (unat ae * Bv)" and
    frame1: "\<forall>q. q < r \<or> r + N \<le> q \<longrightarrow> mem1 q = mem q"
    unfolding V_def c_def Bv_def using multiplier_loop_row [OF disj_b _ N, of i mem ae] by blast
  have unfold: "multiplicand_loop a L1 b L2 r N i mem
      = multiplicand_loop a L1 b L2 r N (Suc i) mem1"
    using i run1 by (subst multiplicand_loop.simps) (simp add: Let_def ae_def)
  have opsa: "load_bigint mem1 (a + Suc i) n = load_bigint mem (a + Suc i) n"
    using disj_a frame1 Suc.prems(1) by (intro load_bigint_cong) auto
  have opsb: "load_bigint mem1 b L2 = load_bigint mem b L2"
    using disj_b frame1 by (intro load_bigint_cong) auto
  have "bigint_value (load_bigint mem1 r N)
        + 2 ^ (64 * Suc i) * (bigint_value (load_bigint mem1 (a + Suc i) n)
                              * bigint_value (load_bigint mem1 b L2))
        = V + c * ((unat ae + 2 ^ 64 * Ra) * Bv)"
    unfolding split by (simp only: val1 cS opsa opsb Ra_def Bv_def)
  with total have "bigint_value (load_bigint mem1 r N)
        + 2 ^ (64 * Suc i) * (bigint_value (load_bigint mem1 (a + Suc i) n)
                              * bigint_value (load_bigint mem1 b L2))
        < 2 ^ (64 * N)"
    by simp
  moreover have "L1 = Suc i + n"
    using Suc.prems(1) by simp
  ultimately obtain mem' where
    run: "multiplicand_loop a L1 b L2 r N (Suc i) mem1 = Some mem'" and
    val: "bigint_value (load_bigint mem' r N) = bigint_value (load_bigint mem1 r N)
          + 2 ^ (64 * Suc i) * (bigint_value (load_bigint mem1 (a + Suc i) n)
                                * bigint_value (load_bigint mem1 b L2))" and
    frame: "\<forall>q. q < r \<or> r + N \<le> q \<longrightarrow> mem' q = mem1 q"
    using Suc.IH [of "Suc i" mem1] by blast
  have "bigint_value (load_bigint mem' r N) = V + c * ((unat ae + 2 ^ 64 * Ra) * Bv)"
    unfolding split val by (simp only: val1 cS opsa opsb Ra_def Bv_def)
  then have "bigint_value (load_bigint mem' r N) = bigint_value (load_bigint mem r N)
          + 2 ^ (64 * i) * (bigint_value (load_bigint mem (a + i) (Suc n))
                            * bigint_value (load_bigint mem b L2))"
    by (simp only: V_def c_def ops Bv_def)
  moreover have "\<forall>q. q < r \<or> r + N \<le> q \<longrightarrow> mem' q = mem q"
    using frame frame1 by simp
  moreover have "multiplicand_loop a L1 b L2 r N i mem = Some mem'"
    using unfold run by simp
  ultimately show ?case
    by blast
qed

lemma load_bigint_memset_zero: "load_bigint (memset_zero r N mem) r N = replicate N 0"
  by (rule nth_equalityI) (simp_all add: load_bigint_def memset_zero_def)

lemma memset_zero_frame: "q < r \<or> r + N \<le> q \<Longrightarrow> memset_zero r N mem q = mem q"
  by (auto simp: memset_zero_def)

lemma bigint_value_product_less:
  "bigint_value (load_bigint mem a L1) * bigint_value (load_bigint mem b L2)
     < 2 ^ (64 * (L1 + L2))"
proof -
  have "bigint_value (load_bigint mem a L1) * bigint_value (load_bigint mem b L2)
      < 2 ^ (64 * L1) * 2 ^ (64 * L2)"
    using bigint_value_less [of "load_bigint mem a L1"] bigint_value_less [of "load_bigint mem b L2"]
    by (intro mult_strict_mono) (simp_all add: load_bigint_length)
  then show ?thesis
    by (simp only: distrib_left power_add)
qed

lemma bigint_multiply_raw_correct:
  assumes disj_a: "a + L1 \<le> r \<or> r + (L1 + L2) \<le> a"
    and disj_b: "b + L2 \<le> r \<or> r + (L1 + L2) \<le> b"
    and size: "L1 + L2 < 2 ^ 32"
  shows "\<exists>mem'. bigint_multiply_raw a L1 b L2 r mem = Some mem'
      \<and> bigint_value (load_bigint mem' r (L1 + L2))
          = bigint_value (load_bigint mem a L1) * bigint_value (load_bigint mem b L2)
      \<and> (\<forall>q. q < r \<or> r + (L1 + L2) \<le> q \<longrightarrow> mem' q = mem q)"
proof -
  define N where "N = L1 + L2"
  define mem0 where "mem0 = memset_zero r N mem"
  have frame0: "\<forall>q. q < r \<or> r + N \<le> q \<longrightarrow> mem0 q = mem q"
    by (simp add: mem0_def memset_zero_frame)
  have zero: "bigint_value (load_bigint mem0 r N) = 0"
    by (simp only: mem0_def load_bigint_memset_zero bigint_value_replicate_0)
  have opsa: "load_bigint mem0 a L1 = load_bigint mem a L1"
    using disj_a frame0 by (intro load_bigint_cong) (auto simp: N_def)
  have opsb: "load_bigint mem0 b L2 = load_bigint mem b L2"
    using disj_b frame0 by (intro load_bigint_cong) (auto simp: N_def)
  have unfold: "bigint_multiply_raw a L1 b L2 r mem = multiplicand_loop a L1 b L2 r N 0 mem0"
    using size by (simp add: bigint_multiply_raw_def Let_def uint_add_small N_def mem0_def)
  have "bigint_value (load_bigint mem a L1) * bigint_value (load_bigint mem b L2)
      < 2 ^ (64 * N)"
    unfolding N_def by (rule bigint_value_product_less)
  then have "bigint_value (load_bigint mem0 r N)
        + 2 ^ (64 * 0) * (bigint_value (load_bigint mem0 (a + 0) L1)
                          * bigint_value (load_bigint mem0 b L2))
        < 2 ^ (64 * N)"
    by (simp add: zero opsa opsb)
  from multiplicand_loop_correct [OF _ _ N_def _ _ this] disj_a disj_b size
  obtain mem' where
    run: "multiplicand_loop a L1 b L2 r N 0 mem0 = Some mem'" and
    val: "bigint_value (load_bigint mem' r N) = bigint_value (load_bigint mem0 r N)
          + 2 ^ (64 * 0) * (bigint_value (load_bigint mem0 (a + 0) L1)
                            * bigint_value (load_bigint mem0 b L2))" and
    frame: "\<forall>q. q < r \<or> r + N \<le> q \<longrightarrow> mem' q = mem0 q"
    unfolding N_def by auto
  have "bigint_value (load_bigint mem' r N)
      = bigint_value (load_bigint mem a L1) * bigint_value (load_bigint mem b L2)"
    unfolding val by (simp add: zero opsa opsb)
  moreover have "\<forall>q. q < r \<or> r + N \<le> q \<longrightarrow> mem' q = mem q"
    using frame frame0 by simp
  moreover have "bigint_multiply_raw a L1 b L2 r mem = Some mem'"
    using run unfold by simp
  ultimately show ?thesis
    unfolding N_def by blast
qed

section \<open>What a run leaves untouched\<close>

text \<open>
  Whatever the buffers are, a run that returns has changed no element outside the
  \<open>result_size\<close> elements at \<open>result0\<close>.
\<close>

lemma carry_loop_frame:
  "carry_loop t0 p limit mem = Some mem' \<Longrightarrow> q < p \<or> limit \<le> q \<Longrightarrow> mem' q = mem q"
proof (induction t0 p limit mem rule: carry_loop.induct)
  case (1 t0 p limit mem)
  define t where "t = add_d (mem p) t0"
  have lt: "p < limit"
    using "1.prems"(1) by (subst (asm) carry_loop.simps) (simp split: if_splits)
  have q: "q \<noteq> p"
    using "1.prems"(2) lt by auto
  show ?case
  proof (cases "sltu t t0 = 0")
    case True
    then have "mem' = mem(p := t)"
      using "1.prems"(1) lt by (subst (asm) carry_loop.simps) (simp add: Let_def t_def)
    with q show ?thesis
      by simp
  next
    case False
    then have run: "carry_loop (sltu t t0) (p + 1) limit (mem(p := t)) = Some mem'"
      using "1.prems"(1) lt by (subst (asm) carry_loop.simps) (simp add: Let_def t_def)
    have "q < p + 1 \<or> limit \<le> q"
      using "1.prems"(2) by auto
    from "1.IH" [OF lt refl refl refl False [unfolded t_def] run [unfolded t_def] this] q
    show ?thesis
      by simp
  qed
qed

lemma multiply_step_frame:
  assumes "multiply_step x y p limit mem = Some mem'" and "q < p \<or> limit \<le> q"
  shows "mem' q = mem q"
proof -
  obtain lo hi c where pair: "multiply_add_pair x y (mem p) (mem (p + 1)) = (lo, hi, c)"
    by (metis prod_cases3)
  have lt: "p + 1 < limit"
    using assms(1) by (simp add: multiply_step_def split: if_splits)
  have q: "q \<noteq> p" "q \<noteq> p + 1"
    using assms(2) lt by auto
  show ?thesis
  proof (cases "c = 0")
    case True
    then have "mem' = mem(p := lo, p + 1 := hi)"
      using assms(1) lt pair by (simp add: multiply_step_def)
    with q show ?thesis
      by simp
  next
    case False
    then have "carry_loop c (p + 2) limit (mem(p := lo, p + 1 := hi)) = Some mem'"
      using assms(1) lt pair by (simp add: multiply_step_def)
    moreover have "q < p + 2 \<or> limit \<le> q"
      using assms(2) by auto
    ultimately have "mem' q = (mem(p := lo, p + 1 := hi)) q"
      by (rule carry_loop_frame)
    with q show ?thesis
      by simp
  qed
qed

lemma multiplier_loop_frame:
  "multiplier_loop ae b L2 r N i j mem = Some mem' \<Longrightarrow> q < r \<or> r + N \<le> q \<Longrightarrow> mem' q = mem q"
proof (induction ae b L2 r N i j mem rule: multiplier_loop.induct)
  case (1 ae b L2 r N i j mem)
  show ?case
  proof (cases "j < L2")
    case False
    then have "mem' = mem"
      using "1.prems"(1) by (subst (asm) multiplier_loop.simps) simp
    then show ?thesis
      by simp
  next
    case True
    then obtain mem1 where
      step: "multiply_step ae (mem (b + j)) (r + uint_add i j) (r + N) mem = Some mem1" and
      rest: "multiplier_loop ae b L2 r N i (j + 1) mem1 = Some mem'"
      using "1.prems"(1)
      by (subst (asm) multiplier_loop.simps) (simp add: Let_def split: option.splits)
    have "q < r + uint_add i j \<or> r + N \<le> q"
      using "1.prems"(2) by auto
    with step have "mem1 q = mem q"
      by (rule multiply_step_frame)
    moreover have "mem' q = mem1 q"
      using "1.IH" [OF True refl refl step rest "1.prems"(2)] .
    ultimately show ?thesis
      by simp
  qed
qed

lemma multiplicand_loop_frame:
  "multiplicand_loop a L1 b L2 r N i mem = Some mem' \<Longrightarrow> q < r \<or> r + N \<le> q
     \<Longrightarrow> mem' q = mem q"
proof (induction a L1 b L2 r N i mem rule: multiplicand_loop.induct)
  case (1 a L1 b L2 r N i mem)
  show ?case
  proof (cases "i < L1")
    case False
    then have "mem' = mem"
      using "1.prems"(1) by (subst (asm) multiplicand_loop.simps) simp
    then show ?thesis
      by simp
  next
    case True
    then obtain mem1 where
      row: "multiplier_loop (mem (a + i)) b L2 r N i 0 mem = Some mem1" and
      rest: "multiplicand_loop a L1 b L2 r N (i + 1) mem1 = Some mem'"
      using "1.prems"(1)
      by (subst (asm) multiplicand_loop.simps) (simp add: Let_def split: option.splits)
    have "mem1 q = mem q"
      using row "1.prems"(2) by (rule multiplier_loop_frame)
    moreover have "mem' q = mem1 q"
      using "1.IH" [OF True refl row rest "1.prems"(2)] .
    ultimately show ?thesis
      by simp
  qed
qed

lemma bigint_multiply_raw_frame:
  assumes "bigint_multiply_raw a L1 b L2 r mem = Some mem'"
    and "q < r \<or> r + uint_add L1 L2 \<le> q"
  shows "mem' q = mem q"
proof -
  have "multiplicand_loop a L1 b L2 r (uint_add L1 L2) 0 (memset_zero r (uint_add L1 L2) mem)
      = Some mem'"
    using assms(1) by (simp add: bigint_multiply_raw_def Let_def)
  then have "mem' q = memset_zero r (uint_add L1 L2) mem q"
    using assms(2) by (rule multiplicand_loop_frame)
  then show ?thesis
    using assms(2) by (simp add: memset_zero_frame)
qed

section \<open>The kernel follows the reference algorithm\<close>

text \<open>
  A simulation, one assembler block against one step of the reference algorithm: the
  result elements after the block are the reference step applied to the result elements
  before it.
\<close>

lemma load_bigint_update:
  "k < N \<Longrightarrow> load_bigint (mem(r + k := v)) r N = (load_bigint mem r N)[k := v]"
  by (rule nth_equalityI) (simp_all add: load_bigint_def nth_list_update)

lemma of_nat_unat_sum: "of_nat (unat x + unat y) = add_d x y"
  by (simp add: add_d_def)

lemma carry_loop_sim:
  "carry_loop 1 (r + k) (r + N) mem = Some mem' \<Longrightarrow>
   load_bigint mem' r N = reference_propagate_carry 1 k (load_bigint mem r N)"
proof (induction n \<equiv> "N - k" arbitrary: k mem)
  case 0
  then have "\<not> r + k < r + N"
    by simp
  then have "carry_loop 1 (r + k) (r + N) mem = None"
    by (subst carry_loop.simps) simp
  with "0.prems" show ?case
    by simp
next
  case (Suc n)
  define w where "w = mem (r + k)"
  define mem1 where "mem1 = mem(r + k := add_d w 1)"
  define t0' where "t0' = sltu (add_d w 1) 1"
  have k: "k < N"
    using Suc.hyps(2) by simp
  have unfold: "carry_loop 1 (r + k) (r + N) mem =
      (if t0' \<noteq> 0 then carry_loop t0' (r + k + 1) (r + N) mem1 else Some mem1)"
    using k by (subst carry_loop.simps) (simp add: Let_def w_def mem1_def t0'_def)
  have carry: "(unat w + 1) div 2 ^ 64 = unat t0'"
    unfolding t0'_def unat_sltu_add_d by simp
  have word: "of_nat (unat w + 1) = add_d w 1"
    using of_nat_unat_sum [of w 1] by simp
  have upd: "(load_bigint mem r N)[k := add_d w 1] = load_bigint mem1 r N"
    unfolding mem1_def using k by (simp add: load_bigint_update)
  have "reference_propagate_carry 1 k (load_bigint mem r N)
      = reference_propagate_carry ((unat w + 1) div 2 ^ 64) (k + 1)
          ((load_bigint mem r N)[k := of_nat (unat w + 1)])"
    using k
    by (subst reference_propagate_carry.simps)
      (simp add: load_bigint_length load_bigint_nth w_def Let_def)
  then have ref: "reference_propagate_carry 1 k (load_bigint mem r N)
      = reference_propagate_carry (unat t0') (k + 1) (load_bigint mem1 r N)"
    by (simp only: carry word upd)
  show ?case
  proof (cases "t0' = 0")
    case True
    then have "mem' = mem1"
      using Suc.prems unfold by simp
    moreover have "reference_propagate_carry (unat t0') (k + 1) (load_bigint mem1 r N)
        = load_bigint mem1 r N"
      using True by (subst reference_propagate_carry.simps) simp
    ultimately show ?thesis
      using ref by simp
  next
    case False
    then have one: "t0' = 1"
      using sltu_cases [of "add_d w 1" 1] by (simp add: t0'_def)
    then have "carry_loop 1 (r + (k + 1)) (r + N) mem1 = Some mem'"
      using Suc.prems unfold by (simp add: add.assoc)
    moreover have "n = N - (k + 1)"
      using Suc.hyps(2) by simp
    ultimately have "load_bigint mem' r N
        = reference_propagate_carry 1 (k + 1) (load_bigint mem1 r N)"
      using Suc.hyps(1) by blast
    then show ?thesis
      using ref one by simp
  qed
qed

lemma pair_sum_nat:
  fixes B w0 w1 P :: nat
  shows "(w0 + P mod B) mod B
       + B * ((w1 + P div B + (w0 + P mod B) div B) mod B
              + B * ((w1 + P div B + (w0 + P mod B) div B) div B))
       = w0 + B * w1 + P"
proof -
  have "(w0 + P mod B) mod B
       + B * ((w1 + P div B + (w0 + P mod B) div B) mod B
              + B * ((w1 + P div B + (w0 + P mod B) div B) div B))
      = (w0 + P mod B) mod B + B * (w1 + P div B + (w0 + P mod B) div B)"
    by (simp only: mod_mult_div_eq)
  also have "\<dots> = ((w0 + P mod B) mod B + B * ((w0 + P mod B) div B)) + B * w1 + B * (P div B)"
    by (simp add: algebra_simps)
  also have "\<dots> = (w0 + P mod B) + B * w1 + B * (P div B)"
    by (simp only: mod_mult_div_eq)
  also have "\<dots> = w0 + B * w1 + (P mod B + B * (P div B))"
    by (simp add: algebra_simps)
  also have "\<dots> = w0 + B * w1 + P"
    by (simp only: mod_mult_div_eq)
  finally show ?thesis .
qed

lemma word_eq_of_nat: "unat (w :: uint64_t) = n mod 2 ^ 64 \<Longrightarrow> w = of_nat n"
  by (simp add: word_unat_eq_iff unat_of_nat)

lemma multiply_add_pair_digits:
  assumes pair: "multiply_add_pair x y w0 w1 = (lo, hi, c)"
  shows "lo = of_nat (unat w0 + (unat x * unat y) mod 2 ^ 64)"
    and "hi = of_nat (unat w1 + (unat x * unat y) div 2 ^ 64
                      + (unat w0 + (unat x * unat y) mod 2 ^ 64) div 2 ^ 64)"
    and "unat c = (unat w1 + (unat x * unat y) div 2 ^ 64
                      + (unat w0 + (unat x * unat y) mod 2 ^ 64) div 2 ^ 64) div 2 ^ 64"
proof -
  define s0 where "s0 = unat w0 + (unat x * unat y) mod 2 ^ 64"
  define s1 where "s1 = unat w1 + (unat x * unat y) div 2 ^ 64 + s0 div 2 ^ 64"
  have "unat lo + 2 ^ 64 * unat hi + 2 ^ 64 * 2 ^ 64 * unat c
      = unat w0 + 2 ^ 64 * unat w1 + unat x * unat y"
    using multiply_add_pair_correct(1) [OF pair] .
  also have "\<dots> = s0 mod 2 ^ 64 + 2 ^ 64 * (s1 mod 2 ^ 64 + 2 ^ 64 * (s1 div 2 ^ 64))"
    unfolding s1_def s0_def by (rule pair_sum_nat [symmetric])
  finally have "unat lo + 2 ^ 64 * (unat hi + 2 ^ 64 * unat c)
      = s0 mod 2 ^ 64 + 2 ^ 64 * (s1 mod 2 ^ 64 + 2 ^ 64 * (s1 div 2 ^ 64))"
    by (simp only: distrib_left mult.assoc add.assoc)
  moreover have m0: "s0 mod 2 ^ 64 < (2::nat) ^ 64" and m1: "s1 mod 2 ^ 64 < (2::nat) ^ 64"
    by (rule mod_less_divisor, rule zero_less_power, rule zero_less_numeral)+
  ultimately have "unat lo = s0 mod 2 ^ 64
      \<and> unat hi + 2 ^ 64 * unat c = s1 mod 2 ^ 64 + 2 ^ 64 * (s1 div 2 ^ 64)"
    by (intro digit_inject [OF unat_less_base])
  then have d0: "unat lo = s0 mod 2 ^ 64"
    and rest: "unat hi + 2 ^ 64 * unat c = s1 mod 2 ^ 64 + 2 ^ 64 * (s1 div 2 ^ 64)"
    by blast+
  from rest have "unat hi = s1 mod 2 ^ 64 \<and> unat c = s1 div 2 ^ 64"
    by (rule digit_inject [OF unat_less_base m1])
  then have d1: "unat hi = s1 mod 2 ^ 64" and d2: "unat c = s1 div 2 ^ 64"
    by blast+
  show "lo = of_nat (unat w0 + (unat x * unat y) mod 2 ^ 64)"
    using d0 unfolding s0_def by (rule word_eq_of_nat)
  show "hi = of_nat (unat w1 + (unat x * unat y) div 2 ^ 64
                      + (unat w0 + (unat x * unat y) mod 2 ^ 64) div 2 ^ 64)"
    using d1 unfolding s1_def s0_def by (rule word_eq_of_nat)
  show "unat c = (unat w1 + (unat x * unat y) div 2 ^ 64
                      + (unat w0 + (unat x * unat y) mod 2 ^ 64) div 2 ^ 64) div 2 ^ 64"
    using d2 unfolding s1_def s0_def .
qed

lemma multiply_step_sim:
  assumes run: "multiply_step x y (r + k) (r + N) mem = Some mem'"
  shows "load_bigint mem' r N = reference_add_product x y k (load_bigint mem r N)"
proof -
  obtain lo hi c where
    pair: "multiply_add_pair x y (mem (r + k)) (mem (r + k + 1)) = (lo, hi, c)"
    by (metis prod_cases3)
  define mem1 where "mem1 = mem(r + k := lo, r + (k + 1) := hi)"
  define R where "R = load_bigint mem r N"
  define s0 where "s0 = unat (R ! k) + (unat x * unat y) mod 2 ^ 64"
  define s1 where "s1 = unat (R[k := of_nat s0] ! (k + 1)) + (unat x * unat y) div 2 ^ 64
                          + s0 div 2 ^ 64"
  have k: "k + 1 < N"
    using run by (simp add: multiply_step_def split: if_splits)
  have unfold: "multiply_step x y (r + k) (r + N) mem =
      (if c = 0 then Some mem1 else carry_loop c (r + (k + 2)) (r + N) mem1)"
    using pair k by (simp add: multiply_step_def Let_def mem1_def add.assoc)
  have Rk: "R ! k = mem (r + k)"
    unfolding R_def using k by (intro load_bigint_nth) simp
  have Rk1: "R[k := v] ! (k + 1) = mem (r + k + 1)" for v
  proof -
    have "R[k := v] ! (k + 1) = R ! (k + 1)"
      by simp
    also have "\<dots> = mem (r + (k + 1))"
      unfolding R_def using k by (intro load_bigint_nth) simp
    finally show ?thesis
      by (simp only: add.assoc)
  qed
  have s0: "s0 = unat (mem (r + k)) + (unat x * unat y) mod 2 ^ 64"
    unfolding s0_def Rk ..
  have s1: "s1 = unat (mem (r + k + 1)) + (unat x * unat y) div 2 ^ 64
      + (unat (mem (r + k)) + (unat x * unat y) mod 2 ^ 64) div 2 ^ 64"
    unfolding s1_def Rk1 s0 ..
  have lo: "of_nat s0 = lo" and hi: "of_nat s1 = hi" and c: "s1 div 2 ^ 64 = unat c"
    unfolding s0 s1 using multiply_add_pair_digits [OF pair] by simp_all
  have "load_bigint (mem(r + k := lo)) r N = R[k := lo]"
    unfolding R_def using k by (intro load_bigint_update) simp
  moreover have "load_bigint ((mem(r + k := lo))(r + (k + 1) := hi)) r N
      = (load_bigint (mem(r + k := lo)) r N)[k + 1 := hi]"
    using k by (intro load_bigint_update) simp
  ultimately have upd: "R[k := lo, k + 1 := hi] = load_bigint mem1 r N"
    unfolding mem1_def by simp
  have "reference_add_product x y k R
      = reference_propagate_carry (s1 div 2 ^ 64) (k + 2) (R[k := of_nat s0, k + 1 := of_nat s1])"
    by (simp only: reference_add_product_def Let_def s0_def s1_def)
  then have ref: "reference_add_product x y k R
      = reference_propagate_carry (unat c) (k + 2) (load_bigint mem1 r N)"
    by (simp only: lo hi c upd)
  have bit: "c = 0 \<or> c = 1"
    using multiply_add_pair_correct(2) [OF pair] .
  show ?thesis
  proof (cases "c = 0")
    case True
    then have "mem' = mem1"
      using run unfold by simp
    moreover have "reference_propagate_carry (unat c) (k + 2) (load_bigint mem1 r N)
        = load_bigint mem1 r N"
      using True by (subst reference_propagate_carry.simps) simp
    ultimately show ?thesis
      using ref unfolding R_def by simp
  next
    case False
    with bit have one: "c = 1"
      by simp
    then have "carry_loop 1 (r + (k + 2)) (r + N) mem1 = Some mem'"
      using run unfold by simp
    then have "load_bigint mem' r N
        = reference_propagate_carry 1 (k + 2) (load_bigint mem1 r N)"
      by (rule carry_loop_sim)
    then show ?thesis
      using ref one unfolding R_def by simp
  qed
qed

lemma multiplier_loop_sim:
  assumes disj: "b + L2 \<le> r \<or> r + N \<le> b"
    and idx: "i + L2 \<le> 2 ^ 32"
  shows "multiplier_loop ae b L2 r N i j mem = Some mem' \<Longrightarrow> L2 = j + n \<Longrightarrow>
    load_bigint mem' r N
      = fold (\<lambda>j. reference_add_product ae (mem (b + j)) (i + j)) [j..<L2] (load_bigint mem r N)"
proof (induction n arbitrary: j mem)
  case 0
  then have "mem' = mem"
    by (subst (asm) multiplier_loop.simps) simp
  with "0.prems"(2) show ?case
    by simp
next
  case (Suc n)
  have j: "j < L2"
    using Suc.prems(2) by simp
  have ij: "uint_add i j = i + j"
    using j idx by (intro uint_add_small) simp
  obtain mem1 where
    step: "multiply_step ae (mem (b + j)) (r + (i + j)) (r + N) mem = Some mem1" and
    rest: "multiplier_loop ae b L2 r N i (Suc j) mem1 = Some mem'"
    using Suc.prems(1) j
    by (subst (asm) multiplier_loop.simps) (simp add: Let_def ij split: option.splits)
  have sim1: "load_bigint mem1 r N
      = reference_add_product ae (mem (b + j)) (i + j) (load_bigint mem r N)"
    using step by (rule multiply_step_sim)
  have ops: "mem1 (b + j') = mem (b + j')" if "j' < L2" for j'
  proof -
    have "b + j' < r \<or> r + N \<le> b + j'"
      using disj that by auto
    then have "b + j' < r + (i + j) \<or> r + N \<le> b + j'"
      by auto
    with step show ?thesis
      by (rule multiply_step_frame)
  qed
  have "load_bigint mem' r N
      = fold (\<lambda>j. reference_add_product ae (mem1 (b + j)) (i + j)) [Suc j..<L2]
          (load_bigint mem1 r N)"
    using Suc.IH [OF rest] Suc.prems(2) by simp
  also have "\<dots> = fold (\<lambda>j. reference_add_product ae (mem (b + j)) (i + j)) [Suc j..<L2]
          (load_bigint mem1 r N)"
    by (rule fold_cong) (simp_all add: ops)
  finally show ?case
    using j by (simp add: upt_conv_Cons sim1)
qed

lemma multiplicand_loop_sim:
  assumes disj_a: "a + L1 \<le> r \<or> r + N \<le> a"
    and disj_b: "b + L2 \<le> r \<or> r + N \<le> b"
    and idx: "L1 + L2 \<le> 2 ^ 32"
  shows "multiplicand_loop a L1 b L2 r N i mem = Some mem' \<Longrightarrow> L1 = i + n \<Longrightarrow>
    load_bigint mem' r N
      = fold (\<lambda>i. fold (\<lambda>j. reference_add_product (mem (a + i)) (mem (b + j)) (i + j)) [0..<L2])
          [i..<L1] (load_bigint mem r N)"
proof (induction n arbitrary: i mem)
  case 0
  then have "mem' = mem"
    by (subst (asm) multiplicand_loop.simps) simp
  with "0.prems"(2) show ?case
    by simp
next
  case (Suc n)
  have i: "i < L1"
    using Suc.prems(2) by simp
  obtain mem1 where
    row: "multiplier_loop (mem (a + i)) b L2 r N i 0 mem = Some mem1" and
    rest: "multiplicand_loop a L1 b L2 r N (Suc i) mem1 = Some mem'"
    using Suc.prems(1) i
    by (subst (asm) multiplicand_loop.simps) (simp add: Let_def split: option.splits)
  have "i + L2 \<le> 2 ^ 32"
    using i idx by simp
  from multiplier_loop_sim [OF disj_b this row, of L2]
  have sim1: "load_bigint mem1 r N
      = fold (\<lambda>j. reference_add_product (mem (a + i)) (mem (b + j)) (i + j)) [0..<L2]
          (load_bigint mem r N)"
    by simp
  have opsa: "mem1 (a + i') = mem (a + i')" if "i' < L1" for i'
  proof -
    have "a + i' < r \<or> r + N \<le> a + i'"
      using disj_a that by auto
    with row show ?thesis
      by (rule multiplier_loop_frame)
  qed
  have opsb: "mem1 (b + j') = mem (b + j')" if "j' < L2" for j'
  proof -
    have "b + j' < r \<or> r + N \<le> b + j'"
      using disj_b that by auto
    with row show ?thesis
      by (rule multiplier_loop_frame)
  qed
  have inner: "fold (\<lambda>j. reference_add_product (mem1 (a + i')) (mem1 (b + j)) (i' + j)) [0..<L2]
      = fold (\<lambda>j. reference_add_product (mem (a + i')) (mem (b + j)) (i' + j)) [0..<L2]"
    if "i' < L1" for i'
    by (rule ext, rule fold_cong) (simp_all add: opsa [OF that] opsb)
  have "load_bigint mem' r N
      = fold (\<lambda>i. fold (\<lambda>j. reference_add_product (mem1 (a + i)) (mem1 (b + j)) (i + j)) [0..<L2])
          [Suc i..<L1] (load_bigint mem1 r N)"
    using Suc.IH [OF rest] Suc.prems(2) by simp
  also have "\<dots>
      = fold (\<lambda>i. fold (\<lambda>j. reference_add_product (mem (a + i)) (mem (b + j)) (i + j)) [0..<L2])
          [Suc i..<L1] (load_bigint mem1 r N)"
    by (rule fold_cong) (simp_all add: inner)
  finally show ?case
    using i by (simp add: upt_conv_Cons sim1)
qed

lemma bigint_multiply_raw_sim:
  assumes disj_a: "a + L1 \<le> r \<or> r + (L1 + L2) \<le> a"
    and disj_b: "b + L2 \<le> r \<or> r + (L1 + L2) \<le> b"
    and size: "L1 + L2 < 2 ^ 32"
    and run: "bigint_multiply_raw a L1 b L2 r mem = Some mem'"
  shows "load_bigint mem' r (L1 + L2)
    = reference_multiply (load_bigint mem a L1) (load_bigint mem b L2)"
proof -
  define N where "N = L1 + L2"
  define mem0 where "mem0 = memset_zero r N mem"
  have run0: "multiplicand_loop a L1 b L2 r N 0 mem0 = Some mem'"
    using run size by (simp add: bigint_multiply_raw_def Let_def uint_add_small N_def mem0_def)
  have opsa: "mem0 (a + i) = load_bigint mem a L1 ! i" if "i < L1" for i
    using disj_a that by (auto simp: mem0_def N_def memset_zero_def load_bigint_nth)
  have opsb: "mem0 (b + j) = load_bigint mem b L2 ! j" if "j < L2" for j
    using disj_b that by (auto simp: mem0_def N_def memset_zero_def load_bigint_nth)
  have inner: "fold (\<lambda>j. reference_add_product (mem0 (a + i)) (mem0 (b + j)) (i + j)) [0..<L2]
      = fold (\<lambda>j. reference_add_product (load_bigint mem a L1 ! i) (load_bigint mem b L2 ! j)
                (i + j)) [0..<L2]"
    if "i < L1" for i
    by (rule ext, rule fold_cong) (simp_all add: opsa [OF that] opsb)
  have "load_bigint mem' r N
      = fold (\<lambda>i. fold (\<lambda>j. reference_add_product (mem0 (a + i)) (mem0 (b + j)) (i + j)) [0..<L2])
          [0..<L1] (load_bigint mem0 r N)"
    using multiplicand_loop_sim [OF _ _ _ run0, of L1] disj_a disj_b size
    by (simp add: N_def)
  also have "\<dots>
      = fold (\<lambda>i. fold (\<lambda>j. reference_add_product (load_bigint mem a L1 ! i)
                              (load_bigint mem b L2 ! j) (i + j)) [0..<L2])
          [0..<L1] (load_bigint mem0 r N)"
    by (rule fold_cong) (simp_all add: inner)
  finally show ?thesis
    by (simp add: reference_multiply_def load_bigint_length mem0_def load_bigint_memset_zero
        N_def)
qed

section \<open>A run passes through every pair\<close>

text \<open>
  Both loops can be cut at any index: running to the index and then on to the end is
  running to the end.
\<close>

lemma multiplier_loop_next:
  "j < L2 \<Longrightarrow> multiplier_loop ae b L2 r N i j mem =
     (case multiply_step ae (mem (b + j)) (r + uint_add i j) (r + N) mem of
        None \<Rightarrow> None
      | Some m1 \<Rightarrow> multiplier_loop ae b L2 r N i (j + 1) m1)"
  by (subst multiplier_loop.simps) (simp add: Let_def)

lemma multiplicand_loop_next:
  "i < L1 \<Longrightarrow> multiplicand_loop a L1 b L2 r N i mem =
     (case multiplier_loop (mem (a + i)) b L2 r N i 0 mem of
        None \<Rightarrow> None
      | Some m2 \<Rightarrow> multiplicand_loop a L1 b L2 r N (i + 1) m2)"
  by (subst multiplicand_loop.simps) (simp add: Let_def)

lemma multiplier_loop_split:
  "j' = j + n \<Longrightarrow> j' \<le> L2 \<Longrightarrow>
   multiplier_loop ae b L2 r N i j mem =
     (case multiplier_loop ae b j' r N i j mem of
        None \<Rightarrow> None
      | Some m \<Rightarrow> multiplier_loop ae b L2 r N i j' m)"
proof (induction n arbitrary: j mem)
  case 0
  then have "multiplier_loop ae b j' r N i j mem = Some mem"
    by (subst multiplier_loop.simps) simp
  with 0 show ?case
    by simp
next
  case (Suc n)
  have j: "j < j'" "j < L2"
    using Suc.prems by simp_all
  show ?case
  proof (cases "multiply_step ae (mem (b + j)) (r + uint_add i j) (r + N) mem")
    case None
    then show ?thesis
      by (simp add: multiplier_loop_next [OF j(1)] multiplier_loop_next [OF j(2)])
  next
    case (Some m1)
    have "multiplier_loop ae b L2 r N i (j + 1) m1 =
      (case multiplier_loop ae b j' r N i (j + 1) m1 of
         None \<Rightarrow> None
       | Some m \<Rightarrow> multiplier_loop ae b L2 r N i j' m)"
      using Suc.prems by (intro Suc.IH) simp_all
    with Some show ?thesis
      by (simp add: multiplier_loop_next [OF j(1)] multiplier_loop_next [OF j(2)])
  qed
qed

lemma multiplicand_loop_split:
  "i' = i + n \<Longrightarrow> i' \<le> L1 \<Longrightarrow>
   multiplicand_loop a L1 b L2 r N i mem =
     (case multiplicand_loop a i' b L2 r N i mem of
        None \<Rightarrow> None
      | Some m \<Rightarrow> multiplicand_loop a L1 b L2 r N i' m)"
proof (induction n arbitrary: i mem)
  case 0
  then have "multiplicand_loop a i' b L2 r N i mem = Some mem"
    by (subst multiplicand_loop.simps) simp
  with 0 show ?case
    by simp
next
  case (Suc n)
  have i: "i < i'" "i < L1"
    using Suc.prems by simp_all
  show ?case
  proof (cases "multiplier_loop (mem (a + i)) b L2 r N i 0 mem")
    case None
    then show ?thesis
      by (simp add: multiplicand_loop_next [OF i(1)] multiplicand_loop_next [OF i(2)])
  next
    case (Some m1)
    have "multiplicand_loop a L1 b L2 r N (i + 1) m1 =
      (case multiplicand_loop a i' b L2 r N (i + 1) m1 of
         None \<Rightarrow> None
       | Some m \<Rightarrow> multiplicand_loop a L1 b L2 r N i' m)"
      using Suc.prems by (intro Suc.IH) simp_all
    with Some show ?thesis
      by (simp add: multiplicand_loop_next [OF i(1)] multiplicand_loop_next [OF i(2)])
  qed
qed

lemma run_through_pair:
  assumes i: "i < L1" and j: "j < L2"
  shows "bigint_multiply_raw a L1 b L2 r mem =
    (case state_before_pair a b L2 r (uint_add L1 L2) i j mem of
       None \<Rightarrow> None
     | Some (ae, m) \<Rightarrow>
         (case multiply_step ae (m (b + j)) (r + uint_add i j) (r + uint_add L1 L2) m of
            None \<Rightarrow> None
          | Some m1 \<Rightarrow>
              (case multiplier_loop ae b L2 r (uint_add L1 L2) i (j + 1) m1 of
                 None \<Rightarrow> None
               | Some m2 \<Rightarrow> multiplicand_loop a L1 b L2 r (uint_add L1 L2) (i + 1) m2)))"
proof -
  define N where "N = uint_add L1 L2"
  define mem0 where "mem0 = memset_zero r N mem"
  have rows: "multiplicand_loop a L1 b L2 r N 0 mem0 =
      (case multiplicand_loop a i b L2 r N 0 mem0 of
         None \<Rightarrow> None
       | Some m \<Rightarrow> multiplicand_loop a L1 b L2 r N i m)"
    using i by (intro multiplicand_loop_split [of i 0 i]) simp_all
  have row: "multiplicand_loop a L1 b L2 r N i m =
      (case multiplier_loop (m (a + i)) b L2 r N i 0 m of
         None \<Rightarrow> None
       | Some m2 \<Rightarrow> multiplicand_loop a L1 b L2 r N (i + 1) m2)" for m
    using i by (rule multiplicand_loop_next)
  have cols: "multiplier_loop ae b L2 r N i 0 m =
      (case multiplier_loop ae b j r N i 0 m of
         None \<Rightarrow> None
       | Some m' \<Rightarrow> multiplier_loop ae b L2 r N i j m')" for ae m
    using j by (intro multiplier_loop_split [of j 0 j]) simp_all
  have col: "multiplier_loop ae b L2 r N i j m =
      (case multiply_step ae (m (b + j)) (r + uint_add i j) (r + N) m of
         None \<Rightarrow> None
       | Some m1 \<Rightarrow> multiplier_loop ae b L2 r N i (j + 1) m1)" for ae m
    using j by (rule multiplier_loop_next)
  have "bigint_multiply_raw a L1 b L2 r mem = multiplicand_loop a L1 b L2 r N 0 mem0"
    by (simp add: bigint_multiply_raw_def Let_def N_def mem0_def)
  then show ?thesis
    unfolding state_before_pair_def N_def [symmetric] mem0_def [symmetric] rows
    by (simp add: row cols col split: option.splits)
qed

section \<open>Worked examples\<close>

text \<open>The kernel, evaluated on concrete memories by rewriting with its definitions.\<close>

lemmas kernel_defs = multiplicand_loop.simps multiplier_loop.simps carry_loop.simps
  bigint_multiply_raw_def uint_add_def memset_zero_def multiply_step_def multiply_add_pair_def
  mul_d_def mulh_du_def add_d_def sltu_def or_d_def Let_def

lemma load_bigint_unfold:
  "load_bigint mem p n = (if n = 0 then [] else mem p # load_bigint mem (p + 1) (n - 1))"
  by (cases n) (simp_all add: load_bigint_0 load_bigint_Suc)

text \<open>
  \<open>(2^128 - 1) * (2^64 - 1)\<close>, into a result buffer that held 7, 9 and 11; the element
  after the result keeps its 13.
\<close>

lemma example_run:
  "map_option (\<lambda>m. [m 4, m 5, m 6, m 7]) (bigint_multiply_raw 0 2 2 1 4 example_memory)
    = Some [1, 18446744073709551615, 18446744073709551614, 13]"
  by (simp add: kernel_defs example_memory_def zero_memory_def)

text \<open>\<open>(2^128 - 1)^2\<close>: the longest carries, and the element after the result stays 0.\<close>

lemma stress_run:
  "map_option (\<lambda>m. [m 4, m 5, m 6, m 7, m 8]) (bigint_multiply_raw 0 2 2 2 4 stress_memory)
    = Some [1, 0, 18446744073709551614, 18446744073709551615, 0]"
  by (simp add: kernel_defs stress_memory_def zero_memory_def)

text \<open>The reference algorithm on the operands of \<open>example_run\<close>.\<close>

lemma reference_multiply_example:
  "reference_multiply [18446744073709551615, 18446744073709551615] [18446744073709551615]
     = [1, 18446744073709551615, 18446744073709551614]"
  by (simp add: reference_multiply_def reference_add_product_def reference_propagate_carry.simps
      Let_def upt_rec)

section \<open>An operand without elements\<close>

lemma multiplier_loop_empty: "multiplier_loop ae b 0 r N i j mem = Some mem"
  by (subst multiplier_loop.simps) simp

lemma multiplicand_loop_empty_rows:
  "multiplicand_loop a L1 b 0 r N i mem = Some mem"
proof (induction n \<equiv> "L1 - i" arbitrary: i)
  case 0
  then show ?case
    by (subst multiplicand_loop.simps) simp
next
  case (Suc n)
  then have "i < L1" "n = L1 - (i + 1)"
    by simp_all
  with Suc.hyps(1) [of "i + 1"] show ?case
    by (simp add: multiplicand_loop_next multiplier_loop_empty)
qed

section \<open>The claims\<close>

text \<open>
  In every statement below the two sizes are \<open>unsigned int\<close> values whose sum, the size
  of the result, is one as well (\<open>L1 + L2 < 2 ^ 32\<close>), and the result buffer overlaps
  neither operand: the buffers of a call are "correctly sized" and "non-aliased".
\<close>

text \<open>
  C1. For a multiplicand of \<open>L1\<close> elements and a multiplier of \<open>L2\<close> elements,
  \<open>bigint_multiply_raw\<close> returns, changes nothing but the \<open>L1 + L2\<close> elements of the
  result, and the result read as an integer is exactly the product of the two operands
  read as integers: nothing is truncated and nothing overflows.
\<close>

theorem bigint_multiply_raw_exact_product:
  assumes "buffers_disjoint multiplicand0 L1 result0 (L1 + L2)"
    and "buffers_disjoint multiplier0 L2 result0 (L1 + L2)"
    and "L1 + L2 < 2 ^ 32"
  shows "\<exists>mem'. bigint_multiply_raw multiplicand0 L1 multiplier0 L2 result0 mem = Some mem'
    \<and> length (load_bigint mem' result0 (L1 + L2)) = L1 + L2
    \<and> bigint_value (load_bigint mem' result0 (L1 + L2))
        = bigint_value (load_bigint mem multiplicand0 L1)
          * bigint_value (load_bigint mem multiplier0 L2)
    \<and> (\<forall>q. q < result0 \<or> result0 + (L1 + L2) \<le> q \<longrightarrow> mem' q = mem q)"
  using bigint_multiply_raw_correct [of multiplicand0 L1 result0 L2 multiplier0 mem] assms
  unfolding buffers_disjoint_def load_bigint_length by blast

theorem bigint_multiply_raw_exact_product_witness:
  "buffers_disjoint 0 2 4 (2 + 1) \<and> buffers_disjoint 2 1 4 (2 + 1) \<and> (2::nat) + 1 < 2 ^ 32
   \<and> (\<exists>mem'. bigint_multiply_raw 0 2 2 1 4 example_memory = Some mem'
        \<and> length (load_bigint mem' 4 (2 + 1)) = 2 + 1
        \<and> bigint_value (load_bigint mem' 4 (2 + 1))
            = 340282366920938463463374607431768211455 * 18446744073709551615
        \<and> (\<forall>q. q < 4 \<or> 4 + (2 + 1) \<le> q \<longrightarrow> mem' q = example_memory q))"
proof -
  have h: "buffers_disjoint 0 2 4 (2 + 1)" "buffers_disjoint 2 1 4 (2 + 1)" "(2::nat) + 1 < 2 ^ 32"
    by (simp_all add: buffers_disjoint_def)
  have a: "bigint_value (load_bigint example_memory 0 2) = 340282366920938463463374607431768211455"
    and b: "bigint_value (load_bigint example_memory 2 1) = 18446744073709551615"
    by (simp_all add: load_bigint_unfold example_memory_def zero_memory_def)
  show ?thesis
    using h bigint_multiply_raw_exact_product [OF h, of example_memory] unfolding a b by blast
qed

text \<open>
  C2. The carry chain of the step for any pair \<open>(i, j)\<close> never leaves the result. From
  the state in which a run arrives at the pair, the assembler block returns a memory:
  its two-element access and every iteration of its unchecked carry loop touched
  elements below index \<open>L1 + L2\<close> only, and the loop ended on a zero carry (the model
  answers \<open>None\<close> otherwise). Nothing at or beyond the end of the result has changed.
  The operands are arbitrary, all elements at \<open>2^64 - 1\<close> included.
\<close>

theorem carry_never_escapes:
  assumes "buffers_disjoint multiplicand0 L1 result0 (L1 + L2)"
    and "buffers_disjoint multiplier0 L2 result0 (L1 + L2)"
    and "L1 + L2 < 2 ^ 32"
    and "i < L1" and "j < L2"
  shows "\<exists>multiplicand_element mem_ij mem'.
      state_before_pair multiplicand0 multiplier0 L2 result0 (L1 + L2) i j mem
        = Some (multiplicand_element, mem_ij)
    \<and> multiply_step multiplicand_element (mem_ij (multiplier0 + j)) (result0 + (i + j))
        (result0 + (L1 + L2)) mem_ij = Some mem'
    \<and> (\<forall>q. result0 + (L1 + L2) \<le> q \<longrightarrow> mem' q = mem q)
    \<and> bigint_multiply_raw multiplicand0 L1 multiplier0 L2 result0 mem
        = (case multiplier_loop multiplicand_element multiplier0 L2 result0 (L1 + L2) i (j + 1)
                  mem' of
             None \<Rightarrow> None
           | Some mem_row \<Rightarrow>
               multiplicand_loop multiplicand0 L1 multiplier0 L2 result0 (L1 + L2) (i + 1)
                 mem_row)"
proof -
  define N where "N = L1 + L2"
  have N: "uint_add L1 L2 = N"
    unfolding N_def using assms(3) by (rule uint_add_small)
  have ij: "uint_add i j = i + j"
    using assms(3-5) by (intro uint_add_small) simp
  obtain mem_end where run: "bigint_multiply_raw multiplicand0 L1 multiplier0 L2 result0 mem
      = Some mem_end"
    using bigint_multiply_raw_correct [of multiplicand0 L1 result0 L2 multiplier0 mem]
      assms(1-3) unfolding buffers_disjoint_def by blast
  note through = run_through_pair [OF assms(4,5), of multiplicand0 multiplier0 result0 mem,
      unfolded N ij run]
  from through obtain ae mem_ij where
    before: "state_before_pair multiplicand0 multiplier0 L2 result0 N i j mem
      = Some (ae, mem_ij)"
    by (cases "state_before_pair multiplicand0 multiplier0 L2 result0 N i j mem") auto
  from through before obtain mem' where
    step: "multiply_step ae (mem_ij (multiplier0 + j)) (result0 + (i + j)) (result0 + N) mem_ij
      = Some mem'"
    by (cases "multiply_step ae (mem_ij (multiplier0 + j)) (result0 + (i + j)) (result0 + N)
        mem_ij") auto
  from before obtain mem_i where
    rows: "multiplicand_loop multiplicand0 i multiplier0 L2 result0 N 0
        (memset_zero result0 N mem) = Some mem_i" and
    cols: "multiplier_loop ae multiplier0 j result0 N i 0 mem_i = Some mem_ij"
    by (auto simp: state_before_pair_def split: option.splits)
  have "mem' q = mem q" if q: "result0 + N \<le> q" for q
  proof -
    have out: "q < result0 \<or> result0 + N \<le> q"
      using q by simp
    have "q < result0 + (i + j) \<or> result0 + N \<le> q"
      using q by simp
    with step have "mem' q = mem_ij q"
      by (rule multiply_step_frame)
    also have "\<dots> = mem_i q"
      using cols out by (rule multiplier_loop_frame)
    also have "\<dots> = memset_zero result0 N mem q"
      using rows out by (rule multiplicand_loop_frame)
    also have "\<dots> = mem q"
      using out by (rule memset_zero_frame)
    finally show ?thesis .
  qed
  moreover have "bigint_multiply_raw multiplicand0 L1 multiplier0 L2 result0 mem
      = (case multiplier_loop ae multiplier0 L2 result0 N i (j + 1) mem' of
           None \<Rightarrow> None
         | Some mem_row \<Rightarrow>
             multiplicand_loop multiplicand0 L1 multiplier0 L2 result0 N (i + 1) mem_row)"
    using through before step run by simp
  ultimately show ?thesis
    using before step unfolding N_def by blast
qed

theorem carry_never_escapes_witness:
  "buffers_disjoint 0 2 4 (2 + 2) \<and> buffers_disjoint 2 2 4 (2 + 2) \<and> (2::nat) + 2 < 2 ^ 32
   \<and> (1::nat) < 2 \<and> (1::nat) < 2
   \<and> (\<exists>multiplicand_element mem_ij mem'.
        state_before_pair 0 2 2 4 (2 + 2) 1 1 stress_memory = Some (multiplicand_element, mem_ij)
      \<and> multiply_step multiplicand_element (mem_ij (2 + 1)) (4 + (1 + 1)) (4 + (2 + 2)) mem_ij
          = Some mem'
      \<and> (\<forall>q. 4 + (2 + 2) \<le> q \<longrightarrow> mem' q = stress_memory q)
      \<and> bigint_multiply_raw 0 2 2 2 4 stress_memory
          = (case multiplier_loop multiplicand_element 2 2 4 (2 + 2) 1 (1 + 1) mem' of
               None \<Rightarrow> None
             | Some mem_row \<Rightarrow> multiplicand_loop 0 2 2 2 4 (2 + 2) (1 + 1) mem_row))"
proof -
  have h: "buffers_disjoint 0 2 4 (2 + 2)" "buffers_disjoint 2 2 4 (2 + 2)"
    "(2::nat) + 2 < 2 ^ 32" "(1::nat) < 2" "(1::nat) < 2"
    by (simp_all add: buffers_disjoint_def)
  show ?thesis
    using h carry_never_escapes [OF h, of stress_memory] by blast
qed

text \<open>
  C3. The assembler kernel computes what the reference schoolbook algorithm computes:
  for every pair of operands the \<open>L1 + L2\<close> elements it leaves in the result are the
  list \<open>reference_multiply\<close> yields on the two operand lists.
\<close>

theorem kernel_refines_reference:
  assumes "buffers_disjoint multiplicand0 L1 result0 (L1 + L2)"
    and "buffers_disjoint multiplier0 L2 result0 (L1 + L2)"
    and "L1 + L2 < 2 ^ 32"
  shows "\<exists>mem'. bigint_multiply_raw multiplicand0 L1 multiplier0 L2 result0 mem = Some mem'
    \<and> load_bigint mem' result0 (L1 + L2)
        = reference_multiply (load_bigint mem multiplicand0 L1) (load_bigint mem multiplier0 L2)"
proof -
  have disj: "multiplicand0 + L1 \<le> result0 \<or> result0 + (L1 + L2) \<le> multiplicand0"
    "multiplier0 + L2 \<le> result0 \<or> result0 + (L1 + L2) \<le> multiplier0"
    using assms(1,2) by (simp_all add: buffers_disjoint_def)
  obtain mem' where run: "bigint_multiply_raw multiplicand0 L1 multiplier0 L2 result0 mem
      = Some mem'"
    using bigint_multiply_raw_correct [OF disj assms(3), of mem] by blast
  with bigint_multiply_raw_sim [OF disj assms(3) run] show ?thesis
    by blast
qed

theorem kernel_refines_reference_witness:
  "buffers_disjoint 0 2 4 (2 + 1) \<and> buffers_disjoint 2 1 4 (2 + 1) \<and> (2::nat) + 1 < 2 ^ 32
   \<and> (\<exists>mem'. bigint_multiply_raw 0 2 2 1 4 example_memory = Some mem'
        \<and> load_bigint mem' 4 (2 + 1)
            = reference_multiply [18446744073709551615, 18446744073709551615]
                [18446744073709551615])"
proof -
  have h: "buffers_disjoint 0 2 4 (2 + 1)" "buffers_disjoint 2 1 4 (2 + 1)" "(2::nat) + 1 < 2 ^ 32"
    by (simp_all add: buffers_disjoint_def)
  have a: "load_bigint example_memory 0 2 = [18446744073709551615, 18446744073709551615]"
    and b: "load_bigint example_memory 2 1 = [18446744073709551615]"
    by (simp_all add: load_bigint_unfold example_memory_def zero_memory_def)
  show ?thesis
    using h kernel_refines_reference [OF h, of example_memory] unfolding a b by blast
qed

text \<open>
  C4. Every addition of the kernel wraps modulo \<open>2^64\<close>, and comparing the wrapped sum
  with an addend detects the carry: \<open>x + y\<close> wrapped is below \<open>y\<close> exactly when the true
  sum reaches \<open>2^64\<close>, so \<open>sltu\<close> yields the carry bit. The carry the block holds in
  \<open>$t0\<close> after its two-element addition is the carry out of adding the 128-bit product
  to the two loaded elements.
\<close>

theorem carry_detection_exact:
  "(add_d x y < y \<longleftrightarrow> 2 ^ 64 \<le> unat x + unat y)
   \<and> unat (add_d x y) = (unat x + unat y) mod 2 ^ 64
   \<and> unat (sltu (add_d x y) y) = (unat x + unat y) div 2 ^ 64
   \<and> (case multiply_add_pair a b w0 w1 of
        (discard_temp_low, discard_temp_high, t0) \<Rightarrow>
          unat discard_temp_low + 2 ^ 64 * unat discard_temp_high
            = (unat w0 + 2 ^ 64 * unat w1 + unat a * unat b) mod 2 ^ 128
        \<and> unat t0 = (unat w0 + 2 ^ 64 * unat w1 + unat a * unat b) div 2 ^ 128)"
proof -
  obtain lo hi c where pair: "multiply_add_pair a b w0 w1 = (lo, hi, c)"
    by (metis prod_cases3)
  define S where "S = unat w0 + 2 ^ 64 * unat w1 + unat a * unat b"
  have sum: "unat lo + 2 ^ 64 * unat hi + 2 ^ 64 * 2 ^ 64 * unat c = S"
    unfolding S_def using pair by (rule multiply_add_pair_correct(1))
  have "2 ^ 64 * (unat hi + 1) \<le> (2::nat) ^ 64 * 2 ^ 64"
    using unat_less_base [of hi] by (intro mult_le_mono2) simp
  then have low: "unat lo + 2 ^ 64 * unat hi < 2 ^ 128"
    using unat_less_base [of lo] by simp
  have S: "S = unat c * 2 ^ 128 + (unat lo + 2 ^ 64 * unat hi)"
    using sum by simp
  have "S div 2 ^ 128 = unat c" "S mod 2 ^ 128 = unat lo + 2 ^ 64 * unat hi"
    unfolding S using low by simp_all
  then have "unat lo + 2 ^ 64 * unat hi = S mod 2 ^ 128 \<and> unat c = S div 2 ^ 128"
    by simp
  then show ?thesis
    unfolding S_def pair by (simp only: add_d_less_iff unat_add_d unat_sltu_add_d prod.case simp_thms)
qed

text \<open>
  C5, as stated, fails: the kernel does read through the operand buffers
  (\<open>multiplicand->element[i]\<close>, \<open>multiplier->element[j]\<close>). Two memories that differ in
  one multiplicand element only give two different results.
\<close>

theorem operand_read_counterexample:
  "the (bigint_multiply_raw 0 1 1 1 2 (zero_memory(0 := 3, 1 := 5))) 2 = 15
   \<and> the (bigint_multiply_raw 0 1 1 1 2 (zero_memory(0 := 4, 1 := 5))) 2 = 20"
  by (simp add: kernel_defs zero_memory_def)

text \<open>
  C5, amended. A call reads the operand buffers and never writes through them: it
  changes nothing but the \<open>L1 + L2\<close> elements of the result. With correctly sized buffers
  and a result that overlaps no operand, the call has no error condition (it returns a
  memory) and both operands hold after the call the elements they held before.
\<close>

theorem operands_read_not_written:
  assumes "buffers_disjoint multiplicand0 L1 result0 (L1 + L2)"
    and "buffers_disjoint multiplier0 L2 result0 (L1 + L2)"
    and "L1 + L2 < 2 ^ 32"
  shows "\<exists>mem'. bigint_multiply_raw multiplicand0 L1 multiplier0 L2 result0 mem = Some mem'
    \<and> (\<forall>q. q < result0 \<or> result0 + (L1 + L2) \<le> q \<longrightarrow> mem' q = mem q)
    \<and> load_bigint mem' multiplicand0 L1 = load_bigint mem multiplicand0 L1
    \<and> load_bigint mem' multiplier0 L2 = load_bigint mem multiplier0 L2"
proof -
  have disj: "multiplicand0 + L1 \<le> result0 \<or> result0 + (L1 + L2) \<le> multiplicand0"
    "multiplier0 + L2 \<le> result0 \<or> result0 + (L1 + L2) \<le> multiplier0"
    using assms(1,2) by (simp_all add: buffers_disjoint_def)
  obtain mem' where run: "bigint_multiply_raw multiplicand0 L1 multiplier0 L2 result0 mem
      = Some mem'"
    using bigint_multiply_raw_correct [OF disj assms(3), of mem] by blast
  have N: "uint_add L1 L2 = L1 + L2"
    using assms(3) by (rule uint_add_small)
  have frame: "mem' q = mem q" if "q < result0 \<or> result0 + (L1 + L2) \<le> q" for q
    using bigint_multiply_raw_frame [OF run, of q] that by (simp add: N)
  have "load_bigint mem' multiplicand0 L1 = load_bigint mem multiplicand0 L1"
    using disj(1) by (intro load_bigint_cong frame) auto
  moreover have "load_bigint mem' multiplier0 L2 = load_bigint mem multiplier0 L2"
    using disj(2) by (intro load_bigint_cong frame) auto
  ultimately show ?thesis
    using run frame by blast
qed

theorem operands_read_not_written_witness:
  "buffers_disjoint 0 2 4 (2 + 1) \<and> buffers_disjoint 2 1 4 (2 + 1) \<and> (2::nat) + 1 < 2 ^ 32
   \<and> (\<exists>mem'. bigint_multiply_raw 0 2 2 1 4 example_memory = Some mem'
        \<and> (\<forall>q. q < 4 \<or> 4 + (2 + 1) \<le> q \<longrightarrow> mem' q = example_memory q)
        \<and> load_bigint mem' 0 2 = [18446744073709551615, 18446744073709551615]
        \<and> load_bigint mem' 2 1 = [18446744073709551615])"
proof -
  have h: "buffers_disjoint 0 2 4 (2 + 1)" "buffers_disjoint 2 1 4 (2 + 1)" "(2::nat) + 1 < 2 ^ 32"
    by (simp_all add: buffers_disjoint_def)
  have a: "load_bigint example_memory 0 2 = [18446744073709551615, 18446744073709551615]"
    and b: "load_bigint example_memory 2 1 = [18446744073709551615]"
    by (simp_all add: load_bigint_unfold example_memory_def zero_memory_def)
  show ?thesis
    using h operands_read_not_written [OF h, of example_memory] unfolding a b by blast
qed

text \<open>
  C6. Multiplication is commutative on the representation: multiplying \<open>a\<close> by \<open>b\<close>
  and \<open>b\<close> by \<open>a\<close> leaves the same \<open>L1 + L2\<close> elements in the two results.
\<close>

theorem multiply_commutative:
  assumes "buffers_disjoint a0 L1 result0 (L1 + L2)"
    and "buffers_disjoint b0 L2 result0 (L1 + L2)"
    and "buffers_disjoint a0 L1 result0' (L1 + L2)"
    and "buffers_disjoint b0 L2 result0' (L1 + L2)"
    and "L1 + L2 < 2 ^ 32"
  shows "\<exists>mem1 mem2.
      bigint_multiply_raw a0 L1 b0 L2 result0 mem = Some mem1
    \<and> bigint_multiply_raw b0 L2 a0 L1 result0' mem = Some mem2
    \<and> load_bigint mem1 result0 (L1 + L2) = load_bigint mem2 result0' (L2 + L1)"
proof -
  have disj: "a0 + L1 \<le> result0 \<or> result0 + (L1 + L2) \<le> a0"
    "b0 + L2 \<le> result0 \<or> result0 + (L1 + L2) \<le> b0"
    "b0 + L2 \<le> result0' \<or> result0' + (L2 + L1) \<le> b0"
    "a0 + L1 \<le> result0' \<or> result0' + (L2 + L1) \<le> a0"
    using assms(1-4) by (simp_all add: buffers_disjoint_def add.commute)
  have size': "L2 + L1 < 2 ^ 32"
    using assms(5) by (simp add: add.commute)
  obtain mem1 where
    run1: "bigint_multiply_raw a0 L1 b0 L2 result0 mem = Some mem1" and
    val1: "bigint_value (load_bigint mem1 result0 (L1 + L2))
      = bigint_value (load_bigint mem a0 L1) * bigint_value (load_bigint mem b0 L2)"
    using bigint_multiply_raw_correct [OF disj(1,2) assms(5), of mem] by blast
  obtain mem2 where
    run2: "bigint_multiply_raw b0 L2 a0 L1 result0' mem = Some mem2" and
    val2: "bigint_value (load_bigint mem2 result0' (L2 + L1))
      = bigint_value (load_bigint mem b0 L2) * bigint_value (load_bigint mem a0 L1)"
    using bigint_multiply_raw_correct [OF disj(3,4) size', of mem] by blast
  have "load_bigint mem1 result0 (L1 + L2) = load_bigint mem2 result0' (L2 + L1)"
    by (rule bigint_value_inject) (simp_all add: load_bigint_length val1 val2)
  with run1 run2 show ?thesis
    by blast
qed

theorem multiply_commutative_witness:
  "buffers_disjoint 0 2 4 (2 + 1) \<and> buffers_disjoint 3 1 4 (2 + 1)
   \<and> buffers_disjoint 0 2 7 (2 + 1) \<and> buffers_disjoint 3 1 7 (2 + 1) \<and> (2::nat) + 1 < 2 ^ 32
   \<and> (\<exists>mem1 mem2.
        bigint_multiply_raw 0 2 3 1 4 example_memory = Some mem1
      \<and> bigint_multiply_raw 3 1 0 2 7 example_memory = Some mem2
      \<and> load_bigint mem1 4 (2 + 1) = load_bigint mem2 7 (1 + 2))"
proof -
  have h: "buffers_disjoint 0 2 4 (2 + 1)" "buffers_disjoint 3 1 4 (2 + 1)"
    "buffers_disjoint 0 2 7 (2 + 1)" "buffers_disjoint 3 1 7 (2 + 1)" "(2::nat) + 1 < 2 ^ 32"
    by (simp_all add: buffers_disjoint_def)
  show ?thesis
    using h multiply_commutative [OF h, of example_memory] by blast
qed

text \<open>
  C7. One is a multiplicative identity up to zero extension: the product of \<open>a\<close> and
  the one-element big integer 1 is \<open>a\<close> followed by one zero element.
\<close>

theorem multiply_by_one:
  assumes "buffers_disjoint multiplicand0 L1 result0 (L1 + 1)"
    and "buffers_disjoint multiplier0 1 result0 (L1 + 1)"
    and "L1 + 1 < 2 ^ 32"
    and "mem multiplier0 = 1"
  shows "\<exists>mem'. bigint_multiply_raw multiplicand0 L1 multiplier0 1 result0 mem = Some mem'
    \<and> load_bigint mem' result0 (L1 + 1) = load_bigint mem multiplicand0 L1 @ [0]"
proof -
  have disj: "multiplicand0 + L1 \<le> result0 \<or> result0 + (L1 + 1) \<le> multiplicand0"
    "multiplier0 + 1 \<le> result0 \<or> result0 + (L1 + 1) \<le> multiplier0"
    using assms(1,2) by (simp_all add: buffers_disjoint_def)
  obtain mem' where
    run: "bigint_multiply_raw multiplicand0 L1 multiplier0 1 result0 mem = Some mem'" and
    val: "bigint_value (load_bigint mem' result0 (L1 + 1))
      = bigint_value (load_bigint mem multiplicand0 L1) * bigint_value (load_bigint mem multiplier0 1)"
    using bigint_multiply_raw_correct [OF disj assms(3), of mem] by blast
  have one: "bigint_value (load_bigint mem multiplier0 1) = 1"
    using assms(4) by (simp add: load_bigint_Suc load_bigint_0)
  have "length (load_bigint mem' result0 (L1 + 1)) = length (load_bigint mem multiplicand0 L1 @ [0])"
    by (simp add: load_bigint_length)
  moreover have "bigint_value (load_bigint mem' result0 (L1 + 1))
      = bigint_value (load_bigint mem multiplicand0 L1 @ [0])"
    unfolding val one by (simp add: bigint_value_append)
  ultimately have "load_bigint mem' result0 (L1 + 1) = load_bigint mem multiplicand0 L1 @ [0]"
    by (rule bigint_value_inject)
  with run show ?thesis
    by blast
qed

theorem multiply_by_one_witness:
  "buffers_disjoint 0 3 4 (3 + 1) \<and> buffers_disjoint 3 1 4 (3 + 1) \<and> (3::nat) + 1 < 2 ^ 32
   \<and> example_memory 3 = 1
   \<and> (\<exists>mem'. bigint_multiply_raw 0 3 3 1 4 example_memory = Some mem'
        \<and> load_bigint mem' 4 (3 + 1)
            = [18446744073709551615, 18446744073709551615, 18446744073709551615] @ [0])"
proof -
  have h: "buffers_disjoint 0 3 4 (3 + 1)" "buffers_disjoint 3 1 4 (3 + 1)" "(3::nat) + 1 < 2 ^ 32"
    "example_memory 3 = 1"
    by (simp_all add: buffers_disjoint_def example_memory_def)
  have a: "load_bigint example_memory 0 3
      = [18446744073709551615, 18446744073709551615, 18446744073709551615]"
    by (simp add: load_bigint_unfold example_memory_def zero_memory_def)
  show ?thesis
    using h multiply_by_one [of 0 3 4 3 example_memory, OF h] unfolding a by blast
qed

text \<open>
  C9. When \<open>multiplicand_size\<close> or \<open>multiplier_size\<close> is 0, no pair is multiplied: the
  final memory is the initial one with the \<open>multiplicand_size + multiplier_size\<close>
  elements of the result zeroed, and the result denotes 0.
\<close>

theorem zero_length_operand:
  assumes "L1 = 0 \<or> L2 = 0" and "L1 + L2 < 2 ^ 32"
  shows "bigint_multiply_raw multiplicand0 L1 multiplier0 L2 result0 mem
      = Some (memset_zero result0 (L1 + L2) mem)
    \<and> load_bigint (memset_zero result0 (L1 + L2) mem) result0 (L1 + L2) = replicate (L1 + L2) 0
    \<and> bigint_value (load_bigint (memset_zero result0 (L1 + L2) mem) result0 (L1 + L2)) = 0"
proof -
  have N: "uint_add L1 L2 = L1 + L2"
    using assms(2) by (rule uint_add_small)
  have "multiplicand_loop multiplicand0 L1 multiplier0 L2 result0 (L1 + L2) 0
      (memset_zero result0 (L1 + L2) mem) = Some (memset_zero result0 (L1 + L2) mem)"
  proof (cases "L1 = 0")
    case True
    then show ?thesis
      by (subst multiplicand_loop.simps) simp
  next
    case False
    with assms(1) have "L2 = 0"
      by simp
    then show ?thesis
      by (simp add: multiplicand_loop_empty_rows)
  qed
  then have "bigint_multiply_raw multiplicand0 L1 multiplier0 L2 result0 mem
      = Some (memset_zero result0 (L1 + L2) mem)"
    by (simp add: bigint_multiply_raw_def Let_def N)
  then show ?thesis
    by (simp add: load_bigint_memset_zero bigint_value_replicate_0)
qed

theorem zero_length_operand_witness:
  "((3::nat) = 0 \<or> (0::nat) = 0) \<and> (3::nat) + 0 < 2 ^ 32
   \<and> bigint_multiply_raw 0 3 3 0 4 example_memory = Some (memset_zero 4 (3 + 0) example_memory)
   \<and> load_bigint (memset_zero 4 (3 + 0) example_memory) 4 (3 + 0) = replicate (3 + 0) 0
   \<and> bigint_value (load_bigint (memset_zero 4 (3 + 0) example_memory) 4 (3 + 0)) = 0"
proof -
  have h: "(3::nat) = 0 \<or> (0::nat) = 0" "(3::nat) + 0 < 2 ^ 32"
    by simp_all
  show ?thesis
    using h zero_length_operand [OF h, of 0 3 4 example_memory] by blast
qed

text \<open>
  C10. The result does not depend on what the result buffer held before the call: two
  memories that differ inside the result buffer only lead to the same final memory.
\<close>

theorem result_independent_of_prior_contents:
  assumes "buffers_disjoint multiplicand0 L1 result0 (L1 + L2)"
    and "buffers_disjoint multiplier0 L2 result0 (L1 + L2)"
    and "L1 + L2 < 2 ^ 32"
    and "\<forall>q. q < result0 \<or> result0 + (L1 + L2) \<le> q \<longrightarrow> mem1 q = mem2 q"
  shows "\<exists>mem'. bigint_multiply_raw multiplicand0 L1 multiplier0 L2 result0 mem1 = Some mem'
    \<and> bigint_multiply_raw multiplicand0 L1 multiplier0 L2 result0 mem2 = Some mem'"
proof -
  have disj: "multiplicand0 + L1 \<le> result0 \<or> result0 + (L1 + L2) \<le> multiplicand0"
    "multiplier0 + L2 \<le> result0 \<or> result0 + (L1 + L2) \<le> multiplier0"
    using assms(1,2) by (simp_all add: buffers_disjoint_def)
  have N: "uint_add L1 L2 = L1 + L2"
    using assms(3) by (rule uint_add_small)
  have "memset_zero result0 (L1 + L2) mem1 = memset_zero result0 (L1 + L2) mem2"
  proof (rule ext)
    fix q
    show "memset_zero result0 (L1 + L2) mem1 q = memset_zero result0 (L1 + L2) mem2 q"
      using assms(4) by (cases "result0 \<le> q \<and> q < result0 + (L1 + L2)")
        (auto simp: memset_zero_def)
  qed
  then have same: "bigint_multiply_raw multiplicand0 L1 multiplier0 L2 result0 mem2
      = bigint_multiply_raw multiplicand0 L1 multiplier0 L2 result0 mem1"
    by (simp add: bigint_multiply_raw_def Let_def N)
  obtain mem' where
    run: "bigint_multiply_raw multiplicand0 L1 multiplier0 L2 result0 mem1 = Some mem'"
    using bigint_multiply_raw_correct [OF disj assms(3), of mem1] by blast
  then have "bigint_multiply_raw multiplicand0 L1 multiplier0 L2 result0 mem2 = Some mem'"
    by (simp only: same)
  with run show ?thesis
    by blast
qed

theorem result_independent_of_prior_contents_witness:
  "buffers_disjoint 0 2 4 (2 + 1) \<and> buffers_disjoint 2 1 4 (2 + 1) \<and> (2::nat) + 1 < 2 ^ 32
   \<and> (\<exists>mem'. bigint_multiply_raw 0 2 2 1 4 example_memory = Some mem'
        \<and> bigint_multiply_raw 0 2 2 1 4 (example_memory(4 := 0, 5 := 1, 6 := 2)) = Some mem')"
proof -
  have h: "buffers_disjoint 0 2 4 (2 + 1)" "buffers_disjoint 2 1 4 (2 + 1)" "(2::nat) + 1 < 2 ^ 32"
    by (simp_all add: buffers_disjoint_def)
  have same: "\<forall>q. q < 4 \<or> 4 + (2 + 1) \<le> q
      \<longrightarrow> example_memory q = (example_memory(4 := 0, 5 := 1, 6 := 2)) q"
    by simp
  show ?thesis
    using h result_independent_of_prior_contents [OF h same] by blast
qed

end
